theory Spec2Isabelle
  imports Main "HOL-Library.AList"
begin

section \<open>The background task scheduler\<close>

text \<open>
  A shallow embedding of the class \<open>Scheduler\<close> (file \<open>Scheduler.ts\<close>, in the sources as
  \<open>src/unnamed/part_005\<close>). The scheduler is single threaded: every public call, every
  promise callback and every timer callback runs to completion before the next one
  starts. The model therefore has one state (the scheduler object, the job objects it
  refers to, and the pending promises and timers of the JavaScript runtime) and one
  atomic step per callback.

  Objects with identity (the \<open>JobImpl\<close> instances) live in a store indexed by a
  reference; the reference of a job is its \<open>executionId\<close>, which the module level counter
  \<open>_nextExecutionId\<close> hands out.
\<close>

subsection \<open>Jobs\<close>

datatype job_status = Queued | Running | Finished

text \<open>\<open>JobResult\<close>. \<open>NoResult\<close> is not one of its values: it stands for \<open>undefined\<close>, the
  content of the local variable \<open>jobResult\<close> of \<open>_executeJob\<close> before its assignment.\<close>

datatype job_result = Pending | Success | Partial | Failure | NoResult

text \<open>
  A value that an executor (or the persistence sink) throws or rejects with. The source
  reads such a value in two places only: the truthiness test \<open>if (executorError)\<close> and
  the text \<open>executorError.message || executorError.toString()\<close>.
  \<^item> \<open>FalsyValue\<close> stands for the values JavaScript treats as false (\<open>undefined\<close>, \<open>null\<close>,
    \<open>0\<close>, the empty string);
  \<^item> \<open>ErrorValue m\<close> for a truthy value on which the second expression yields the text
    \<open>m\<close> (any \<open>Error\<close>, any non-empty string, ...);
  \<^item> \<open>OpaqueValue\<close> for a truthy value on which the second expression itself throws: it
    has no truthy \<open>message\<close> and no callable \<open>toString\<close> (\<open>Object.create(null)\<close>).
\<close>

datatype thrown = FalsyValue | ErrorValue string | OpaqueValue

fun truthy :: "thrown option \<Rightarrow> bool" where
  "truthy None = False"
| "truthy (Some FalsyValue) = False"
| "truthy (Some (ErrorValue m)) = True"
| "truthy (Some OpaqueValue) = True"

text \<open>The text of a truthy value, \<open>None\<close> when computing it throws. (The source does not
  compute it for a falsy value.)\<close>

fun errorText :: "thrown \<Rightarrow> string option" where
  "errorText (ErrorValue m) = Some m"
| "errorText OpaqueValue = None"
| "errorText FalsyValue = None"

text \<open>
  Modelled from the spec: the class \<open>JobImpl\<close> (\<open>JobImpl.ts\<close>) is not among the sources.
  Its fields are the ones the spec lists for a Job and the ones \<open>Scheduler.ts\<close> reads and
  writes. The executor is an opaque function; the model keeps an identifier for it.
  \<open>startTime\<close> (wall clock) is left out.
\<close>

record JobImpl =
  executionId :: nat
  taskName :: string
  executor :: nat
  timeout :: nat
  channel :: "string option"
  silent :: bool
  status :: job_status
  result :: job_result
  logId :: "nat option"
  timeoutId :: "nat option"
  timedOut :: bool
  warnings :: "string list"
  errors :: "string list"

text \<open>
  Modelled from the spec: the constructor of \<open>JobImpl\<close>. A job is created in the
  \<open>queued\<close> state with empty warning and error lists.
\<close>

definition newJobImpl :: "nat \<Rightarrow> string \<Rightarrow> nat \<Rightarrow> nat \<Rightarrow> string option \<Rightarrow> bool \<Rightarrow> JobImpl" where
  "newJobImpl eid tn ex tmo ch sil =
     \<lparr> executionId = eid, taskName = tn, executor = ex, timeout = tmo, channel = ch,
       silent = sil, status = Queued, result = Pending, logId = None, timeoutId = None,
       timedOut = False, warnings = [], errors = [] \<rparr>"

text \<open>Modelled from the spec: \<open>JobImpl.setStatus\<close>, \<open>JobImpl.error\<close> and \<open>JobImpl.warning\<close>
  (not among the sources); the last two append to the job's lists.\<close>

definition setStatus :: "job_status \<Rightarrow> job_result \<Rightarrow> JobImpl \<Rightarrow> JobImpl" where
  "setStatus s r J = J\<lparr> status := s, result := r \<rparr>"

definition jobError :: "string \<Rightarrow> JobImpl \<Rightarrow> JobImpl" where
  "jobError m J = J\<lparr> errors := errors J @ [m] \<rparr>"

definition jobWarning :: "string \<Rightarrow> JobImpl \<Rightarrow> JobImpl" where
  "jobWarning m J = J\<lparr> warnings := warnings J @ [m] \<rparr>"

subsection \<open>Channels, options, the scheduler and the runtime\<close>

record JobChannel =
  name :: string
  runningJob :: "nat option"
  queue :: "nat list"

definition newJobChannel :: "string \<Rightarrow> JobChannel" where
  "newJobChannel n = \<lparr> name = n, runningJob = None, queue = [] \<rparr>"

text \<open>\<open>TaskOptions\<close>; the fields are \<open>channel\<close> and \<open>silent\<close> in the source.\<close>

record TaskOptions =
  optChannel :: "string option"
  optSilent :: "bool option"

text \<open>
  The position of a job's promise chain in \<open>_executeJob\<close>:
  \<^item> \<open>NotStarted\<close>: \<open>_executeJob\<close> has not been called for the job;
  \<^item> \<open>PendingStart\<close>: \<open>dao.cron.startJob\<close> has been called and has not settled;
  \<^item> \<open>PendingWork\<close>: the first callback has run and returned the executor's promise;
  \<^item> \<open>PendingConclude e\<close>: the executor's promise has settled, or an earlier stage has
    thrown; \<open>e\<close> is the local variable \<open>executorError\<close> (\<open>None\<close> is its initial \<open>null\<close>);
  \<^item> \<open>PendingFinishLog r\<close>: the second callback has run, to its end or to a throw, and
    the second \<open>catch\<close> if it threw; \<open>r\<close> is the local \<open>jobResult\<close>;
  \<^item> \<open>Done\<close>: the last callback has run.
\<close>

datatype phase =
  NotStarted | PendingStart | PendingWork | PendingConclude "thrown option"
  | PendingFinishLog job_result | Done

datatype sink_call = StartJob string | FinishJob nat job_result

text \<open>
  The state. \<open>runningJobs\<close> and \<open>channels\<close> are the fields \<open>_runningJobs\<close> and \<open>_channels\<close>
  of the scheduler, the latter a JavaScript \<open>Map\<close>, which iterates in insertion order: an
  association list. \<open>jobs\<close> is the store of job objects, \<open>nextExecutionId\<close> the module
  counter; a reference that has not been handed out yet holds a blank job, which no
  method reads before the constructor has overwritten it. The rest is the runtime: \<open>promise\<close> the stage of each job's promise chain,
  \<open>timers\<close> the jobs whose \<open>setTimeout\<close> callback is pending, \<open>calls\<close> the jobs whose
  executor has been invoked (in order), \<open>sink\<close> the calls made to \<open>dao.cron\<close>.
\<close>

record world =
  runningJobs :: "nat list"
  channels :: "(string \<times> JobChannel) list"
  jobs :: "nat \<Rightarrow> JobImpl"
  nextExecutionId :: nat
  promise :: "nat \<Rightarrow> phase"
  timers :: "nat list"
  calls :: "nat list"
  sink :: "sink_call list"

definition initial :: world where
  "initial = \<lparr> runningJobs = [], channels = [],
     jobs = (\<lambda>j. newJobImpl j [] 0 0 None False), nextExecutionId = 0,
     promise = (\<lambda>j. NotStarted), timers = [], calls = [], sink = [] \<rparr>"

datatype error = JobAlreadyExecuted | TaskAlreadyRunning | OrphanedJob | CannotRemoveJob

subsection \<open>The methods of \<open>Scheduler\<close>\<close>

definition updJob :: "nat \<Rightarrow> (JobImpl \<Rightarrow> JobImpl) \<Rightarrow> world \<Rightarrow> world" where
  "updJob j f w = w\<lparr> jobs := (jobs w)(j := f (jobs w j)) \<rparr>"

definition nameOf :: "world \<Rightarrow> nat \<Rightarrow> string" where
  "nameOf w j = taskName (jobs w j)"

text \<open>\<open>findWhere(list, { taskName: taskName })\<close> of \<open>util/underscore\<close>: the first element
  of the list with that task name, or \<open>undefined\<close>.\<close>

definition findWhere :: "world \<Rightarrow> nat list \<Rightarrow> string \<Rightarrow> nat option" where
  "findWhere w js tn = find (\<lambda>j. nameOf w j = tn) js"

definition findRunningJob :: "world \<Rightarrow> string \<Rightarrow> nat option" where
  "findRunningJob w tn = findWhere w (runningJobs w) tn"

definition isRunning :: "world \<Rightarrow> string \<Rightarrow> bool" where
  "isRunning w tn = (findRunningJob w tn \<noteq> None)"

text \<open>
  \<open>this._channels.set(cn, ch)\<close>, and any write to a field of the channel object that
  the map holds under \<open>cn\<close>: the entry is replaced where it stands, a new key goes to
  the end.
\<close>

definition setChannel :: "string \<Rightarrow> JobChannel \<Rightarrow> world \<Rightarrow> world" where
  "setChannel cn ch w = w\<lparr> channels := AList.update cn ch (channels w) \<rparr>"

text \<open>\<open>_getChannel\<close> creates the channel on first use; it returns the state too.\<close>

definition getChannel :: "world \<Rightarrow> string \<Rightarrow> world \<times> JobChannel" where
  "getChannel w cn =
     (case map_of (channels w) cn of
        Some ch \<Rightarrow> (w, ch)
      | None \<Rightarrow> (setChannel cn (newJobChannel cn) w, newJobChannel cn))"

definition findQueuedTaskInChannel :: "world \<Rightarrow> string \<Rightarrow> string option \<Rightarrow> world \<times> nat option" where
  "findQueuedTaskInChannel w tn channelName =
     (case channelName of
        None \<Rightarrow> (w, None)
      | Some cn \<Rightarrow> (let (w1, ch) = getChannel w cn in (w1, findWhere w1 (queue ch) tn)))"

text \<open>
  The synchronous part of \<open>_executeJob\<close>: the two guards, the push on \<open>_runningJobs\<close>, and
  the call of \<open>dao.cron.startJob\<close>, whose promise starts the job's chain.

  Modelled from the spec: \<open>dao.cron.startJob\<close> and \<open>dao.cron.finishJob\<close> (not among the
  sources) return a promise, which resolves or rejects later; they do not throw in the
  call itself. The logger does not throw.
\<close>

definition executeJob :: "world \<Rightarrow> nat \<Rightarrow> error + world" where
  "executeJob w j =
     (if status (jobs w j) \<noteq> Queued then Inl JobAlreadyExecuted
      else if isRunning w (nameOf w j) then Inl TaskAlreadyRunning
      else Inr (w\<lparr> runningJobs := runningJobs w @ [j],
                   promise := (promise w)(j := PendingStart),
                   sink := sink w @ [StartJob (nameOf w j)] \<rparr>))"

text \<open>
  The loop of \<open>_tryRunNextJobInChannel\<close>: scan the queue in order, take out the first job
  that is not blocked (\<open>splice(i, 1)\<close>) and stop (\<open>break\<close>). The result is that job and
  the queue without it, or \<open>None\<close> when every job is blocked.
\<close>

fun scanQueue :: "(nat \<Rightarrow> bool) \<Rightarrow> nat list \<Rightarrow> (nat \<times> nat list) option" where
  "scanQueue blocked [] = None"
| "scanQueue blocked (j # q) =
     (if \<not> blocked j then Some (j, q)
      else (case scanQueue blocked q of
              None \<Rightarrow> None
            | Some (k, q') \<Rightarrow> Some (k, j # q')))"

text \<open>
  The method takes the channel object; the model takes its key. Every caller passes a
  channel of the map, so the first branch below (no such key) is never taken.
\<close>

definition tryRunNextJobInChannel :: "world \<Rightarrow> string \<Rightarrow> error + world" where
  "tryRunNextJobInChannel w cn =
     (case map_of (channels w) cn of
        None \<Rightarrow> Inr w
      | Some ch \<Rightarrow>
          if runningJob ch \<noteq> None then Inr w
          else (case scanQueue (\<lambda>j. isRunning w (nameOf w j)) (queue ch) of
                  None \<Rightarrow> Inr w
                | Some (j, q') \<Rightarrow>
                    executeJob (setChannel cn (ch\<lparr> queue := q', runningJob := Some j \<rparr>) w) j))"

text \<open>\<open>_tryToUnstallChannels\<close>: every channel of the map, in the map's order.\<close>

fun unstallLoop :: "string list \<Rightarrow> world \<Rightarrow> error + world" where
  "unstallLoop [] w = Inr w"
| "unstallLoop (cn # cns) w =
     (case tryRunNextJobInChannel w cn of
        Inl e \<Rightarrow> Inl e
      | Inr w' \<Rightarrow> unstallLoop cns w')"

definition tryToUnstallChannels :: "world \<Rightarrow> error + world" where
  "tryToUnstallChannels w = unstallLoop (map fst (channels w)) w"

definition queueJobToChannel :: "world \<Rightarrow> nat \<Rightarrow> string \<Rightarrow> JobChannel \<Rightarrow> error + world" where
  "queueJobToChannel w j cn ch =
     tryRunNextJobInChannel (setChannel cn (ch\<lparr> queue := queue ch @ [j] \<rparr>) w) cn"

definition removeJobFromChannel :: "world \<Rightarrow> string option \<Rightarrow> nat \<Rightarrow> error + world" where
  "removeJobFromChannel w channelName j =
     (case channelName of
        None \<Rightarrow> Inr w
      | Some cn \<Rightarrow>
          (let (w1, ch) = getChannel w cn in
           if runningJob ch = Some j then Inr (setChannel cn (ch\<lparr> runningJob := None \<rparr>) w1)
           else if j \<notin> set (queue ch) then Inl CannotRemoveJob
           else Inr (setChannel cn (ch\<lparr> queue := remove1 j (queue ch) \<rparr>) w1)))"

definition unregisterJob :: "world \<Rightarrow> nat \<Rightarrow> error + world" where
  "unregisterJob w j =
     (if j \<notin> set (runningJobs w) then Inl OrphanedJob
      else (case removeJobFromChannel (w\<lparr> runningJobs := remove1 j (runningJobs w) \<rparr>)
                   (channel (jobs w j)) j of
              Inl e \<Rightarrow> Inl e
            | Inr w1 \<Rightarrow> tryToUnstallChannels w1))"

definition timeoutJob :: "world \<Rightarrow> nat \<Rightarrow> error + world" where
  "timeoutJob w j =
     (case unregisterJob w j of
        Inl e \<Rightarrow> Inl e
      | Inr w1 \<Rightarrow> Inr (updJob j (\<lambda>J. J\<lparr> timedOut := True \<rparr>) w1))"

definition createAndRunJob :: "world \<Rightarrow> string \<Rightarrow> nat \<Rightarrow> nat \<Rightarrow> TaskOptions \<Rightarrow> error + (nat \<times> world)" where
  "createAndRunJob w tn ex tmo options =
     (let j = nextExecutionId w;
          job = newJobImpl j tn ex tmo (optChannel options)
                  (case optSilent options of Some b \<Rightarrow> b | None \<Rightarrow> False);
          w1 = w\<lparr> jobs := (jobs w)(j := job), nextExecutionId := j + 1 \<rparr>
      in case (case optChannel options of
                 None \<Rightarrow> executeJob w1 j
               | Some cn \<Rightarrow> (let (w2, ch) = getChannel w1 cn in queueJobToChannel w2 j cn ch)) of
           Inl e \<Rightarrow> Inl e
         | Inr w3 \<Rightarrow> Inr (j, w3))"

definition runTask :: "world \<Rightarrow> string \<Rightarrow> nat \<Rightarrow> nat \<Rightarrow> TaskOptions \<Rightarrow> error + (nat \<times> world)" where
  "runTask w tn ex tmo options =
     (case findRunningJob w tn of
        Some j \<Rightarrow> Inr (j, w)
      | None \<Rightarrow>
          (case findQueuedTaskInChannel w tn (optChannel options) of
             (w1, Some j) \<Rightarrow> Inr (j, w1)
           | (w1, None) \<Rightarrow> createAndRunJob w1 tn ex tmo options))"

definition getRunningJobs :: "world \<Rightarrow> nat list" where
  "getRunningJobs w = runningJobs w"

subsection \<open>The promise chain of \<open>_executeJob\<close>\<close>

text \<open>
  Modelled from its use: \<open>notNil\<close> of \<open>util/assert\<close> (not among the sources) throws when
  its argument is \<open>null\<close> or \<open>undefined\<close> and returns it otherwise. In the second callback
  a throw of \<open>notNil\<close> skips the rest of the callback, the call of \<open>finishJob\<close> included;
  the \<open>catch\<close> that follows logs it.
\<close>

text \<open>
  First callback, \<open>.then(jobId => ...)\<close>, run when \<open>startJob\<close> resolves with \<open>jobId\<close>.
  \<open>sync\<close> tells what the call \<open>job.executor(this._db, job)\<close> does: \<open>None\<close> when it
  returns its promise, \<open>Some e\<close> when it throws \<open>e\<close>; then the rest of the callback is
  skipped and the first \<open>catch\<close> stores \<open>e\<close> in \<open>executorError\<close>.
\<close>

definition startResolved :: "world \<Rightarrow> nat \<Rightarrow> nat \<Rightarrow> thrown option \<Rightarrow> world" where
  "startResolved w j jobId sync =
     (let w1 = updJob j (\<lambda>J. J\<lparr> logId := Some jobId \<rparr>) w;
          w2 = w1\<lparr> calls := calls w1 @ [j] \<rparr>
      in case sync of
           Some e \<Rightarrow> w2\<lparr> promise := (promise w2)(j := PendingConclude (Some e)) \<rparr>
         | None \<Rightarrow>
             (let w3 = updJob j (\<lambda>J. setStatus Running Pending (J\<lparr> timeoutId := Some j \<rparr>)) w2
              in w3\<lparr> timers := timers w3 @ [j],
                     promise := (promise w3)(j := PendingWork) \<rparr>))"

text \<open>\<open>startJob\<close> rejects with \<open>e\<close>: the first callback is skipped, the first \<open>catch\<close> runs.\<close>

definition startRejected :: "world \<Rightarrow> nat \<Rightarrow> thrown \<Rightarrow> world" where
  "startRejected w j e = w\<lparr> promise := (promise w)(j := PendingConclude (Some e)) \<rparr>"

text \<open>The executor's promise settles: resolved (\<open>None\<close>) or rejected with \<open>e\<close> (\<open>Some e\<close>),
  which the first \<open>catch\<close> stores.\<close>

definition workSettled :: "world \<Rightarrow> nat \<Rightarrow> thrown option \<Rightarrow> world" where
  "workSettled w j r = w\<lparr> promise := (promise w)(j := PendingConclude r) \<rparr>"

definition classify :: "JobImpl \<Rightarrow> job_result" where
  "classify J =
     (if length (errors J) > 0 then Failure
      else if length (warnings J) > 0 then Partial
      else Success)"

text \<open>
  Second callback, \<open>.then(() => ...)\<close>. A throw inside it ends it there: nothing of what
  follows the throwing statement is done, and the second \<open>catch\<close> logs the exception.

  Its second part, from \<open>if (job.errors.length > 0)\<close> on: the result is computed, the
  timer cleared unless the job has timed out, and \<open>finishJob\<close> called. The two calls of
  \<open>notNil\<close> can throw.
\<close>

definition classifyAndLog :: "world \<Rightarrow> nat \<Rightarrow> world" where
  "classifyAndLog w j =
     (let jobResult = classify (jobs w j);
          done = (\<lambda>v. v\<lparr> promise := (promise v)(j := PendingFinishLog jobResult) \<rparr>);
          finish = (\<lambda>v. case logId (jobs v j) of
                      None \<Rightarrow> done v
                    | Some l \<Rightarrow> done (v\<lparr> sink := sink v @ [FinishJob l jobResult] \<rparr>))
      in if \<not> timedOut (jobs w j)
         then (case timeoutId (jobs w j) of
                 None \<Rightarrow> done w
               | Some t \<Rightarrow> finish (w\<lparr> timers := removeAll t (timers w) \<rparr>))
         else finish w)"

text \<open>
  Its first part records the executor error, if there is one (a truthy value), and can
  throw while it computes the text of the error: then the error is not recorded,
  \<open>jobResult\<close> stays unassigned, the timer stays armed and \<open>finishJob\<close> is not called.
\<close>

definition conclude :: "world \<Rightarrow> nat \<Rightarrow> thrown option \<Rightarrow> world" where
  "conclude w j executorError =
     (if truthy executorError
      then (case errorText (the executorError) of
              None \<Rightarrow> w\<lparr> promise := (promise w)(j := PendingFinishLog NoResult) \<rparr>
            | Some m \<Rightarrow> classifyAndLog (updJob j (jobError m) w) j)
      else classifyAndLog w j)"

text \<open>Last callback, run when \<open>finishJob\<close> has settled (either way) or the second
  callback has thrown.\<close>

definition finishSettled :: "world \<Rightarrow> nat \<Rightarrow> job_result \<Rightarrow> error + world" where
  "finishSettled w j jobResult =
     (case (if \<not> timedOut (jobs w j)
            then (case unregisterJob w j of
                    Inl e \<Rightarrow> Inl e
                  | Inr w1 \<Rightarrow> tryToUnstallChannels w1)
            else Inr w) of
        Inl e \<Rightarrow> Inl e
      | Inr w2 \<Rightarrow>
          Inr ((updJob j (setStatus Finished jobResult) w2)
                 \<lparr> promise := (promise w2)(j := Done) \<rparr>))"

subsection \<open>Events and reachable states\<close>

text \<open>
  What can happen to a scheduler: a call of \<open>runTask\<close>; the settling of a job's
  \<open>startJob\<close>, of its executor's promise, of its \<open>finishJob\<close>; the run of the second
  callback; the firing of a job's timer; and the executor using its handle
  (\<open>job.warning\<close>, \<open>job.error\<close>) once it has been invoked.
\<close>

datatype event =
    RunTask string nat nat TaskOptions
  | StartJobResolved nat nat "thrown option"
  | StartJobRejected nat thrown
  | WorkSettled nat "thrown option"
  | Conclude nat
  | FinishJobSettled nat
  | TimerFires nat
  | JobWarning nat string
  | JobError nat string

fun enabled :: "world \<Rightarrow> event \<Rightarrow> bool" where
  "enabled w (RunTask tn ex tmo options) = True"
| "enabled w (StartJobResolved j jobId sync) = (promise w j = PendingStart)"
| "enabled w (StartJobRejected j e) = (promise w j = PendingStart)"
| "enabled w (WorkSettled j r) = (promise w j = PendingWork)"
| "enabled w (Conclude j) = (case promise w j of PendingConclude e \<Rightarrow> True | _ \<Rightarrow> False)"
| "enabled w (FinishJobSettled j) = (case promise w j of PendingFinishLog r \<Rightarrow> True | _ \<Rightarrow> False)"
| "enabled w (TimerFires j) = (j \<in> set (timers w))"
| "enabled w (JobWarning j m) = (j \<in> set (calls w))"
| "enabled w (JobError j m) = (j \<in> set (calls w))"

fun step :: "world \<Rightarrow> event \<Rightarrow> error + world" where
  "step w (RunTask tn ex tmo options) =
     (case runTask w tn ex tmo options of Inl e \<Rightarrow> Inl e | Inr (j, w') \<Rightarrow> Inr w')"
| "step w (StartJobResolved j jobId sync) = Inr (startResolved w j jobId sync)"
| "step w (StartJobRejected j e) = Inr (startRejected w j e)"
| "step w (WorkSettled j r) = Inr (workSettled w j r)"
| "step w (Conclude j) =
     (case promise w j of PendingConclude e \<Rightarrow> Inr (conclude w j e) | _ \<Rightarrow> Inr w)"
| "step w (FinishJobSettled j) =
     (case promise w j of PendingFinishLog r \<Rightarrow> finishSettled w j r | _ \<Rightarrow> Inr w)"
| "step w (TimerFires j) =
     (case timeoutJob w j of
        Inl e \<Rightarrow> Inl e
      | Inr w' \<Rightarrow> Inr (w'\<lparr> timers := removeAll j (timers w') \<rparr>))"
| "step w (JobWarning j m) = Inr (updJob j (jobWarning m) w)"
| "step w (JobError j m) = Inr (updJob j (jobError m) w)"

text \<open>Running a list of events from a state; \<open>None\<close> when an event is not enabled where
  it stands or a step raises.\<close>

fun run :: "world \<Rightarrow> event list \<Rightarrow> world option" where
  "run w [] = Some w"
| "run w (e # es) =
     (if enabled w e then (case step w e of Inl x \<Rightarrow> None | Inr w' \<Rightarrow> run w' es) else None)"

inductive reachable :: "world \<Rightarrow> bool" where
  reachable_initial: "reachable initial"
| reachable_step: "reachable w \<Longrightarrow> enabled w e \<Longrightarrow> step w e = Inr w' \<Longrightarrow> reachable w'"

subsection \<open>The bookkeeping invariant\<close>

text \<open>
  A promise chain is active from the call of \<open>_executeJob\<close> until its last callback.
\<close>

definition active :: "phase \<Rightarrow> bool" where
  "active p \<longleftrightarrow> p \<noteq> NotStarted \<and> p \<noteq> Done"

text \<open>A job of the running set is allocated, has not timed out, has an active chain,
  and holds the slot of its channel if it has one. Task names are unique in the set.\<close>

definition runOK :: "world \<Rightarrow> nat \<Rightarrow> bool" where
  "runOK w j \<longleftrightarrow>
     j < nextExecutionId w \<and> \<not> timedOut (jobs w j) \<and> active (promise w j) \<and>
     (\<forall>cn. channel (jobs w j) = Some cn \<longrightarrow>
        (\<exists>ch. map_of (channels w) cn = Some ch \<and> runningJob ch = Some j))"

definition runInv :: "world \<Rightarrow> bool" where
  "runInv w \<longleftrightarrow>
     distinct (map (nameOf w) (runningJobs w)) \<and> (\<forall>j\<in>set (runningJobs w). runOK w j)"

text \<open>In the queue of a channel task names are unique, the jobs stand in the order of
  their execution ids (the order in which they were created and queued), and every job
  is allocated, untouched and belongs to the channel; the job in the slot is running.\<close>

definition chanOK :: "world \<Rightarrow> string \<Rightarrow> JobChannel \<Rightarrow> bool" where
  "chanOK w cn ch \<longleftrightarrow>
     distinct (map (nameOf w) (queue ch)) \<and> sorted_wrt (<) (queue ch) \<and>
     (\<forall>j\<in>set (queue ch).
        j < nextExecutionId w \<and> status (jobs w j) = Queued \<and> promise w j = NotStarted \<and>
        channel (jobs w j) = Some cn \<and> \<not> timedOut (jobs w j)) \<and>
     (\<forall>j. runningJob ch = Some j \<longrightarrow>
        j \<in> set (runningJobs w) \<and> channel (jobs w j) = Some cn)"

definition chanInv :: "world \<Rightarrow> bool" where
  "chanInv w \<longleftrightarrow> (\<forall>cn ch. map_of (channels w) cn = Some ch \<longrightarrow> chanOK w cn ch)"

text \<open>How the fields of one job go with the stage \<open>p\<close> of its chain; \<open>n\<close> is the next
  execution id.\<close>

definition jobOK :: "nat \<Rightarrow> JobImpl \<Rightarrow> phase \<Rightarrow> nat \<Rightarrow> bool" where
  "jobOK j J p n \<longleftrightarrow>
     (status J = Running \<longrightarrow> active p \<and> p \<noteq> PendingStart) \<and>
     (status J = Finished \<longrightarrow> p = Done) \<and>
     (\<forall>t. timeoutId J = Some t \<longrightarrow> t = j) \<and>
     (n \<le> j \<longrightarrow> p = NotStarted) \<and>
     (timedOut J \<longrightarrow> p \<noteq> NotStarted \<and> p \<noteq> PendingStart)"

definition jobInv :: "world \<Rightarrow> bool" where
  "jobInv w \<longleftrightarrow> (\<forall>j. jobOK j (jobs w j) (promise w j) (nextExecutionId w))"

text \<open>Every job outside \<open>X\<close> with an active chain that has not timed out is in the running
  set; \<open>X\<close> holds the job that a callback is in the middle of unregistering. A job with a
  pending timer has been through the first callback of its chain.\<close>

definition tracked :: "nat set \<Rightarrow> world \<Rightarrow> bool" where
  "tracked X w \<longleftrightarrow>
     (\<forall>j. (j \<notin> X \<longrightarrow> active (promise w j) \<and> \<not> timedOut (jobs w j) \<longrightarrow>
             j \<in> set (runningJobs w)) \<and>
          (j \<in> set (timers w) \<longrightarrow>
             timeoutId (jobs w j) = Some j \<and> promise w j \<noteq> NotStarted \<and>
             promise w j \<noteq> PendingStart))"

definition core :: "world \<Rightarrow> bool" where
  "core w \<longleftrightarrow> distinct (map fst (channels w)) \<and> runInv w \<and> chanInv w \<and> jobInv w"

definition inv :: "world \<Rightarrow> bool" where
  "inv w \<longleftrightarrow> core w \<and> tracked {} w"

text \<open>What a promotion pass may change: the queues and slots of channels, the running
  set (which grows) and the chains of the jobs it starts; nothing else.\<close>

definition grows :: "world \<Rightarrow> world \<Rightarrow> bool" where
  "grows w w' \<longleftrightarrow>
     jobs w' = jobs w \<and> nextExecutionId w' = nextExecutionId w \<and> timers w' = timers w \<and>
     calls w' = calls w \<and> map fst (channels w') = map fst (channels w) \<and>
     set (runningJobs w) \<subseteq> set (runningJobs w') \<and>
     (\<forall>j. promise w' j = promise w j \<or>
          (promise w j = NotStarted \<and> promise w' j = PendingStart)) \<and>
     (\<forall>j\<in>set (runningJobs w'). j \<in> set (runningJobs w) \<or> promise w j = NotStarted)"

text \<open>A channel is settled when its slot is taken or every job in its queue is blocked by
  a running job of the same name.\<close>

definition settled :: "world \<Rightarrow> string \<Rightarrow> bool" where
  "settled w cn =
     (case map_of (channels w) cn of
        None \<Rightarrow> True
      | Some ch \<Rightarrow> runningJob ch \<noteq> None \<or> (\<forall>k\<in>set (queue ch). isRunning w (nameOf w k)))"

subsection \<open>An example state\<close>

text \<open>
  A state as \<open>_unregisterJob\<close> finds it after it has taken job 0 (\<open>A\<close>, the running job
  of channel \<open>x\<close>) out of the running set and out of the slot of the channel: job 3
  (\<open>T\<close>, no channel) is running, and jobs 1 (\<open>T\<close>) and 2 (\<open>B\<close>) wait in the queue of
  \<open>x\<close>.
\<close>

definition stalledExample :: world where
  "stalledExample =
     \<lparr> runningJobs = [3],
       channels = [(''x'', \<lparr>name = ''x'', runningJob = None, queue = [1, 2]\<rparr>)],
       jobs = (\<lambda>j. newJobImpl j (if j = 0 then ''A'' else if j = 2 then ''B'' else ''T'') 0 100
                     (if j = 3 then None else Some ''x'') False),
       nextExecutionId = 4,
       promise = (\<lambda>j. if j = 0 then PendingFinishLog Success
                       else if j = 3 then PendingStart else NotStarted),
       timers = [], calls = [0],
       sink = [StartJob ''A'', StartJob ''T'', FinishJob 7 Success] \<rparr>"

section \<open>Basic facts\<close>

lemmas model_defs =
  runTask_def createAndRunJob_def findRunningJob_def findWhere_def findQueuedTaskInChannel_def
  getChannel_def setChannel_def queueJobToChannel_def tryRunNextJobInChannel_def executeJob_def
  isRunning_def nameOf_def newJobImpl_def newJobChannel_def startResolved_def startRejected_def
  workSettled_def conclude_def classifyAndLog_def classify_def finishSettled_def
  unregisterJob_def
  removeJobFromChannel_def tryToUnstallChannels_def timeoutJob_def updJob_def setStatus_def
  jobError_def jobWarning_def initial_def

lemma isRunning_iff: "isRunning w tn \<longleftrightarrow> tn \<in> nameOf w ` set (runningJobs w)"
  by (auto simp: isRunning_def findRunningJob_def findWhere_def find_None_iff)

lemma findWhere_None: "findWhere w js tn = None \<longleftrightarrow> tn \<notin> nameOf w ` set js"
  by (auto simp: findWhere_def find_None_iff)

lemma findWhere_SomeD: "findWhere w js tn = Some j \<Longrightarrow> j \<in> set js \<and> nameOf w j = tn"
  by (auto simp: findWhere_def find_Some_iff)

lemma scanQueue_None: "scanQueue b q = None \<longleftrightarrow> (\<forall>x\<in>set q. b x)"
  by (induction q) (auto split: option.splits)

lemma scanQueue_SomeD:
  "scanQueue b q = Some (k, q') \<Longrightarrow>
     \<exists>pre post. q = pre @ k # post \<and> q' = pre @ post \<and> (\<forall>x\<in>set pre. b x) \<and> \<not> b k"
proof (induction q arbitrary: q')
  case Nil
  then show ?case by simp
next
  case (Cons j q)
  show ?case
  proof (cases "b j")
    case False
    with Cons.prems have "j = k" "q' = q" by auto
    with False show ?thesis by (intro exI[of _ "[]"] exI[of _ q]) simp
  next
    case True
    with Cons.prems obtain q1 where s: "scanQueue b q = Some (k, q1)" and q': "q' = j # q1"
      by (auto split: option.splits)
    from Cons.IH[OF s] obtain pre post where
      "q = pre @ k # post" "q1 = pre @ post" "\<forall>x\<in>set pre. b x" "\<not> b k" by blast
    with True q' show ?thesis
      by (intro exI[of _ "j # pre"] exI[of _ post]) simp
  qed
qed

lemma scanQueue_first:
  "(\<forall>x\<in>set pre. b x) \<Longrightarrow> \<not> b k \<Longrightarrow> scanQueue b (pre @ k # post) = Some (k, pre @ post)"
  by (induction pre) auto


lemma setChannel_simps [simp]:
  "runningJobs (setChannel cn ch w) = runningJobs w"
  "jobs (setChannel cn ch w) = jobs w"
  "nextExecutionId (setChannel cn ch w) = nextExecutionId w"
  "promise (setChannel cn ch w) = promise w"
  "timers (setChannel cn ch w) = timers w"
  "calls (setChannel cn ch w) = calls w"
  "sink (setChannel cn ch w) = sink w"
  "map_of (channels (setChannel cn ch w)) = (map_of (channels w))(cn \<mapsto> ch)"
  "nameOf (setChannel cn ch w) = nameOf w"
  by (simp_all add: setChannel_def update_conv' nameOf_def fun_eq_iff)

lemma setChannel_keys_present:
  "map_of (channels w) cn = Some c0 \<Longrightarrow> map fst (channels (setChannel cn ch w)) = map fst (channels w)"
  by (auto simp: setChannel_def update_keys dest: map_of_SomeD intro: rev_image_eqI)

lemma setChannel_keys_absent:
  "map_of (channels w) cn = None \<Longrightarrow> map fst (channels (setChannel cn ch w)) = map fst (channels w) @ [cn]"
  by (auto simp: setChannel_def update_keys map_of_eq_None_iff)

lemma setChannel_distinct:
  "distinct (map fst (channels w)) \<Longrightarrow> distinct (map fst (channels (setChannel cn ch w)))"
  by (simp add: setChannel_def distinct_update)

lemma nameOf_upd [simp]:
  "nameOf (w\<lparr>runningJobs := r\<rparr>) = nameOf w"
  "nameOf (w\<lparr>promise := p\<rparr>) = nameOf w"
  "nameOf (w\<lparr>sink := s\<rparr>) = nameOf w"
  "nameOf (w\<lparr>timers := t\<rparr>) = nameOf w"
  "nameOf (w\<lparr>calls := c\<rparr>) = nameOf w"
  "nameOf (w\<lparr>channels := cs\<rparr>) = nameOf w"
  "nameOf (w\<lparr>nextExecutionId := n\<rparr>) = nameOf w"
  by (simp_all add: nameOf_def fun_eq_iff)

lemma tryRunNext_cases:
  assumes "tryRunNextJobInChannel w cn = Inr w'"
  shows "w' = w \<or>
    (\<exists>ch pre k post. map_of (channels w) cn = Some ch \<and> runningJob ch = None \<and>
        queue ch = pre @ k # post \<and> (\<forall>x\<in>set pre. isRunning w (nameOf w x)) \<and>
        \<not> isRunning w (nameOf w k) \<and> status (jobs w k) = Queued \<and>
        w' = (setChannel cn (ch\<lparr> queue := pre @ post, runningJob := Some k \<rparr>) w)
               \<lparr> runningJobs := runningJobs w @ [k],
                 promise := (promise w)(k := PendingStart),
                 sink := sink w @ [StartJob (nameOf w k)] \<rparr>)"
proof (cases "map_of (channels w) cn")
  case None
  with assms show ?thesis by (simp add: tryRunNextJobInChannel_def)
next
  case (Some ch)
  show ?thesis
  proof (cases "runningJob ch \<noteq> None \<or> scanQueue (\<lambda>j. isRunning w (nameOf w j)) (queue ch) = None")
    case True
    with assms Some show ?thesis
      by (auto simp: tryRunNextJobInChannel_def split: if_splits)
  next
    case False
    then obtain k q' where idle: "runningJob ch = None"
      and sc: "scanQueue (\<lambda>j. isRunning w (nameOf w j)) (queue ch) = Some (k, q')" by auto
    from scanQueue_SomeD[OF sc] obtain pre post where
      q: "queue ch = pre @ k # post" "q' = pre @ post"
         "\<forall>x\<in>set pre. isRunning w (nameOf w x)" "\<not> isRunning w (nameOf w k)" by blast
    from assms Some idle sc have
      ex: "executeJob (setChannel cn (ch\<lparr> queue := q', runningJob := Some k \<rparr>) w) k = Inr w'"
      by (simp add: tryRunNextJobInChannel_def)
    then have "status (jobs w k) = Queued" and
      "w' = (setChannel cn (ch\<lparr> queue := q', runningJob := Some k \<rparr>) w)
               \<lparr> runningJobs := runningJobs w @ [k],
                 promise := (promise w)(k := PendingStart),
                 sink := sink w @ [StartJob (nameOf w k)] \<rparr>"
      by (auto simp: executeJob_def split: if_splits)
    with Some idle q show ?thesis by blast
  qed
qed

section \<open>The invariant is preserved\<close>

subsection \<open>Reading the invariant\<close>

lemma chanInvD:
  "chanInv w \<Longrightarrow> map_of (channels w) cn = Some ch \<Longrightarrow> chanOK w cn ch"
  unfolding chanInv_def by blast

lemma chanOK_queueD:
  assumes "chanOK w cn ch" "j \<in> set (queue ch)"
  shows "j < nextExecutionId w" "status (jobs w j) = Queued" "promise w j = NotStarted"
    "channel (jobs w j) = Some cn" "\<not> timedOut (jobs w j)"
  using assms unfolding chanOK_def by blast+

lemma chanOK_slotD:
  assumes "chanOK w cn ch" "runningJob ch = Some j"
  shows "j \<in> set (runningJobs w)" "channel (jobs w j) = Some cn"
  using assms unfolding chanOK_def by blast+

lemma chanOK_distinctD: "chanOK w cn ch \<Longrightarrow> distinct (map (nameOf w) (queue ch))"
  unfolding chanOK_def by blast

lemma chanOK_sortedD: "chanOK w cn ch \<Longrightarrow> sorted_wrt (<) (queue ch)"
  unfolding chanOK_def by blast

lemma runInvD: "runInv w \<Longrightarrow> j \<in> set (runningJobs w) \<Longrightarrow> runOK w j"
  unfolding runInv_def by blast

lemma runOK_slotD:
  "runOK w j \<Longrightarrow> channel (jobs w j) = Some cn \<Longrightarrow>
     \<exists>ch. map_of (channels w) cn = Some ch \<and> runningJob ch = Some j"
  unfolding runOK_def by blast

text \<open>A channel that an operation leaves alone stays in order when the jobs of its queue
  and slot are left alone too.\<close>

lemma chanOK_frame:
  assumes "chanOK w cn ch" "nextExecutionId w \<le> nextExecutionId w'"
    "\<And>j. j \<in> set (queue ch) \<Longrightarrow> jobs w' j = jobs w j \<and> promise w' j = promise w j"
    "\<And>j. runningJob ch = Some j \<Longrightarrow>
        j \<in> set (runningJobs w') \<and> channel (jobs w' j) = channel (jobs w j)"
  shows "chanOK w' cn ch"
proof -
  have n: "map (nameOf w') (queue ch) = map (nameOf w) (queue ch)"
    using assms(3) by (simp add: nameOf_def)
  show ?thesis
    using assms unfolding chanOK_def n by (auto simp: less_le_trans)
qed

lemma runOK_frame:
  assumes "runOK w j" "nextExecutionId w \<le> nextExecutionId w'"
    "timedOut (jobs w' j) = timedOut (jobs w j)" "channel (jobs w' j) = channel (jobs w j)"
    "active (promise w' j)"
    "\<And>cn ch. channel (jobs w j) = Some cn \<Longrightarrow> map_of (channels w) cn = Some ch \<Longrightarrow>
        runningJob ch = Some j \<Longrightarrow> \<exists>ch'. map_of (channels w') cn = Some ch' \<and> runningJob ch' = Some j"
  shows "runOK w' j"
  using assms unfolding runOK_def by (auto simp: less_le_trans)

subsection \<open>Promotion of a queued job\<close>

lemma promote_core:
  assumes c: "core w" and ch: "map_of (channels w) cn = Some ch" and idle: "runningJob ch = None"
    and q: "queue ch = pre @ k # post" and free: "\<not> isRunning w (nameOf w k)"
  shows "core ((setChannel cn (ch\<lparr> queue := pre @ post, runningJob := Some k \<rparr>) w)
               \<lparr> runningJobs := runningJobs w @ [k],
                 promise := (promise w)(k := PendingStart),
                 sink := s \<rparr>)" (is "core ?w'")
proof -
  from c have ri: "runInv w" and ci: "chanInv w" and ji: "jobInv w"
    and dk: "distinct (map fst (channels w))" by (simp_all add: core_def)
  note ok = chanInvD[OF ci ch]
  have kq: "k \<in> set (queue ch)" using q by simp
  note kf = chanOK_queueD[OF ok kq]
  have dn: "distinct (map (nameOf w) (pre @ k # post))" using chanOK_distinctD[OF ok] q by simp
  then have k': "k \<notin> set pre" "k \<notin> set post" by auto
  have "sorted_wrt (<) (pre @ k # post)" using chanOK_sortedD[OF ok] q by simp
  then have so: "sorted_wrt (<) (pre @ post)" by (auto simp: sorted_wrt_append)
  have knr: "k \<notin> set (runningJobs w)" using free by (auto simp: isRunning_iff)
  have "distinct (map fst (channels ?w'))"
    using dk by (simp add: setChannel_distinct)
  moreover have "runInv ?w'"
    unfolding runInv_def
  proof (intro conjI ballI)
    show "distinct (map (nameOf ?w') (runningJobs ?w'))"
      using ri free by (auto simp: runInv_def isRunning_iff)
    fix j assume "j \<in> set (runningJobs ?w')"
    then consider "j \<in> set (runningJobs w)" "j \<noteq> k" | "j = k" using knr by auto
    then show "runOK ?w' j"
    proof cases
      case 1
      show ?thesis
      proof (rule runOK_frame[OF runInvD[OF ri 1(1)]])
        fix cn' c' assume a: "channel (jobs w j) = Some cn'" "map_of (channels w) cn' = Some c'"
          "runningJob c' = Some j"
        with ch idle have "cn' \<noteq> cn" by auto
        with a show "\<exists>ch'. map_of (channels ?w') cn' = Some ch' \<and> runningJob ch' = Some j" by simp
      qed (use 1 runInvD[OF ri 1(1)] in \<open>auto simp: runOK_def\<close>)
    next
      case 2
      then show ?thesis using kf by (simp add: runOK_def active_def)
    qed
  qed
  moreover have "chanInv ?w'"
    unfolding chanInv_def
  proof (intro allI impI)
    fix cn' c' assume a: "map_of (channels ?w') cn' = Some c'"
    show "chanOK ?w' cn' c'"
    proof (cases "cn' = cn")
      case True
      with a have c': "c' = ch\<lparr> queue := pre @ post, runningJob := Some k \<rparr>" by simp
      have "\<And>j. j \<in> set pre \<or> j \<in> set post \<Longrightarrow> j < nextExecutionId w \<and> status (jobs w j) = Queued \<and>
          promise w j = NotStarted \<and> channel (jobs w j) = Some cn \<and> \<not> timedOut (jobs w j)"
        using chanOK_queueD[OF ok] q by auto
      then show ?thesis using dn so k' kf True unfolding chanOK_def c' by auto
    next
      case False
      with a have old: "map_of (channels w) cn' = Some c'" by simp
      note ok' = chanInvD[OF ci old]
      have "k \<notin> set (queue c')" using chanOK_queueD(4)[OF ok', of k] kf(4) False by auto
      then show ?thesis
        using chanOK_slotD[OF ok']
        by (intro chanOK_frame[OF ok']) auto
    qed
  qed
  moreover have "jobInv ?w'"
    using ji kf unfolding jobInv_def jobOK_def
    by (auto simp: active_def)
  ultimately show ?thesis by (simp add: core_def)
qed

lemma promote_tracked:
  assumes "tracked X w" "promise w k = NotStarted"
  shows "tracked X ((setChannel cn c1 w)
               \<lparr> runningJobs := runningJobs w @ [k],
                 promise := (promise w)(k := PendingStart), sink := s \<rparr>)"
  using assms unfolding tracked_def by (auto simp: active_def)

subsection \<open>Updates of one job, and removal from the running set\<close>

lemma distinct_map_remove1:
  "distinct (map f xs) \<Longrightarrow> distinct (map f (remove1 x xs))"
  unfolding distinct_map
  by (auto intro: inj_on_diff)

lemma distinct_map_set_remove1:
  "distinct (map f xs) \<Longrightarrow> set (remove1 x xs) = set xs - {x}"
  by (simp add: distinct_map)

text \<open>A job that is in no queue changes; the scheduler's lists do not.\<close>

lemma local_update_core:
  assumes c: "core w"
    and same: "runningJobs w' = runningJobs w" "channels w' = channels w"
      "nextExecutionId w' = nextExecutionId w"
      "\<And>k. k \<noteq> j \<Longrightarrow> jobs w' k = jobs w k \<and> promise w' k = promise w k"
    and j: "promise w j \<noteq> NotStarted"
      "taskName (jobs w' j) = taskName (jobs w j)" "channel (jobs w' j) = channel (jobs w j)"
      "j \<in> set (runningJobs w) \<Longrightarrow> \<not> timedOut (jobs w' j) \<and> active (promise w' j)"
      "jobOK j (jobs w' j) (promise w' j) (nextExecutionId w)"
  shows "core w'"
proof -
  from c have ri: "runInv w" and ci: "chanInv w" and ji: "jobInv w"
    and dk: "distinct (map fst (channels w))" by (simp_all add: core_def)
  have "nameOf w' k = nameOf w k" for k
    using same(4)[of k] j(2) by (cases "k = j") (auto simp: nameOf_def)
  then have nm: "nameOf w' = nameOf w" by (simp add: fun_eq_iff)
  have "runInv w'"
    unfolding runInv_def
  proof (intro conjI ballI)
    show "distinct (map (nameOf w') (runningJobs w'))"
      using ri by (simp add: runInv_def nm same)
    fix k assume k: "k \<in> set (runningJobs w')"
    then have kr: "k \<in> set (runningJobs w)" by (simp add: same)
    note ok = runInvD[OF ri kr]
    show "runOK w' k"
    proof (cases "k = j")
      case True
      with ok j(3,4) kr show ?thesis by (auto simp: runOK_def same)
    next
      case False
      with ok same(4)[OF False] show ?thesis by (auto simp: runOK_def same)
    qed
  qed
  moreover have "chanInv w'"
    unfolding chanInv_def
  proof (intro allI impI)
    fix cn ch assume "map_of (channels w') cn = Some ch"
    then have a: "map_of (channels w) cn = Some ch" by (simp add: same)
    note ok = chanInvD[OF ci a]
    show "chanOK w' cn ch"
    proof (rule chanOK_frame[OF ok])
      fix k assume "k \<in> set (queue ch)"
      with chanOK_queueD(3)[OF ok this] j(1) have "k \<noteq> j" by auto
      then show "jobs w' k = jobs w k \<and> promise w' k = promise w k" by (rule same(4))
    next
      fix k assume "runningJob ch = Some k"
      with chanOK_slotD[OF ok this] same j(3)
      show "k \<in> set (runningJobs w') \<and> channel (jobs w' k) = channel (jobs w k)"
        by (cases "k = j") auto
    qed (simp add: same)
  qed
  moreover have "jobInv w'"
    unfolding jobInv_def
  proof
    fix k show "jobOK k (jobs w' k) (promise w' k) (nextExecutionId w')"
      using ji j(5) same by (cases "k = j") (auto simp: jobInv_def)
  qed
  ultimately show ?thesis using dk by (simp add: core_def same)
qed

text \<open>Removing a running job from the running set and from the slot of its channel.\<close>

lemma remove_core:
  assumes c: "core w" and jr: "j \<in> set (runningJobs w)"
  shows "\<exists>w1. removeJobFromChannel (w\<lparr> runningJobs := remove1 j (runningJobs w) \<rparr>)
                 (channel (jobs w j)) j = Inr w1 \<and>
           core w1 \<and> jobs w1 = jobs w \<and> promise w1 = promise w \<and> timers w1 = timers w \<and>
           calls w1 = calls w \<and> nextExecutionId w1 = nextExecutionId w \<and>
           sink w1 = sink w \<and>
           map fst (channels w1) = map fst (channels w) \<and>
           set (runningJobs w1) = set (runningJobs w) - {j} \<and>
           (\<forall>c. channel (jobs w j) \<noteq> Some c \<longrightarrow>
              map_of (channels w1) c = map_of (channels w) c) \<and>
           (\<forall>cn ch. map_of (channels w1) cn = Some ch \<longrightarrow>
              (\<exists>ch0. map_of (channels w) cn = Some ch0 \<and> queue ch = queue ch0 \<and>
                 (runningJob ch = runningJob ch0 \<or> runningJob ch0 = Some j \<and> runningJob ch = None)))"
proof -
  let ?w0 = "w\<lparr> runningJobs := remove1 j (runningJobs w) \<rparr>"
  from c have ri: "runInv w" and ci: "chanInv w" and ji: "jobInv w"
    and dk: "distinct (map fst (channels w))" by (simp_all add: core_def)
  from ri have dn: "distinct (map (nameOf w) (runningJobs w))" by (simp add: runInv_def)
  have s0: "set (remove1 j (runningJobs w)) = set (runningJobs w) - {j}"
    by (rule distinct_map_set_remove1[OF dn])
  note okj = runInvD[OF ri jr]
  show ?thesis
  proof (cases "channel (jobs w j)")
    case None
    have "runInv ?w0"
      unfolding runInv_def
    proof (intro conjI ballI)
      show "distinct (map (nameOf ?w0) (runningJobs ?w0))"
        using dn by (simp add: distinct_map_remove1)
      fix k assume "k \<in> set (runningJobs ?w0)"
      then have "k \<in> set (runningJobs w)" by (simp add: s0)
      from runInvD[OF ri this] show "runOK ?w0 k" by (simp add: runOK_def)
    qed
    moreover have "chanInv ?w0"
      unfolding chanInv_def
    proof (intro allI impI)
      fix cn ch assume "map_of (channels ?w0) cn = Some ch"
      then have a: "map_of (channels w) cn = Some ch" by simp
      note ok = chanInvD[OF ci a]
      show "chanOK ?w0 cn ch"
      proof (rule chanOK_frame[OF ok])
        fix k assume "runningJob ch = Some k"
        from chanOK_slotD[OF ok this] None
        show "k \<in> set (runningJobs ?w0) \<and> channel (jobs ?w0 k) = channel (jobs w k)"
          by (auto simp: s0)
      qed simp_all
    qed
    moreover have "jobInv ?w0" using ji by (simp add: jobInv_def)
    ultimately have "core ?w0" using dk by (simp add: core_def)
    then show ?thesis using None by (simp add: removeJobFromChannel_def s0)
  next
    case (Some cn)
    from runOK_slotD[OF okj Some] obtain ch where
      ch: "map_of (channels w) cn = Some ch" "runningJob ch = Some j" by blast
    let ?w1 = "setChannel cn (ch\<lparr> runningJob := None \<rparr>) ?w0"
    have r: "removeJobFromChannel ?w0 (channel (jobs w j)) j = Inr ?w1"
      using Some ch by (simp add: removeJobFromChannel_def getChannel_def)
    have "runInv ?w1"
      unfolding runInv_def
    proof (intro conjI ballI)
      show "distinct (map (nameOf ?w1) (runningJobs ?w1))"
        using dn by (simp add: distinct_map_remove1)
      fix k assume "k \<in> set (runningJobs ?w1)"
      then have k: "k \<in> set (runningJobs w)" "k \<noteq> j" by (simp_all add: s0)
      show "runOK ?w1 k"
      proof (rule runOK_frame[OF runInvD[OF ri k(1)]])
        fix cn' c' assume "channel (jobs w k) = Some cn'" "map_of (channels w) cn' = Some c'"
          "runningJob c' = Some k"
        with ch k(2) show "\<exists>ch'. map_of (channels ?w1) cn' = Some ch' \<and> runningJob ch' = Some k"
          by (cases "cn' = cn") auto
      qed (use runInvD[OF ri k(1)] in \<open>auto simp: runOK_def\<close>)
    qed
    moreover have "chanInv ?w1"
      unfolding chanInv_def
    proof (intro allI impI)
      fix cn' c' assume a: "map_of (channels ?w1) cn' = Some c'"
      show "chanOK ?w1 cn' c'"
      proof (cases "cn' = cn")
        case True
        with a have c': "c' = ch\<lparr> runningJob := None \<rparr>" by simp
        from chanInvD[OF ci ch(1)] show ?thesis unfolding chanOK_def c' True by auto
      next
        case False
        with a have old: "map_of (channels w) cn' = Some c'" by simp
        note ok' = chanInvD[OF ci old]
        show ?thesis
        proof (rule chanOK_frame[OF ok'])
          fix k assume "runningJob c' = Some k"
          from chanOK_slotD[OF ok' this] Some False
          show "k \<in> set (runningJobs ?w1) \<and> channel (jobs ?w1 k) = channel (jobs w k)"
            by (auto simp: s0)
        qed simp_all
      qed
    qed
    moreover have "jobInv ?w1" using ji by (simp add: jobInv_def)
    moreover have "distinct (map fst (channels ?w1))" using dk setChannel_distinct[of ?w0] by simp
    ultimately have "core ?w1" by (simp add: core_def)
    moreover have "map fst (channels ?w1) = map fst (channels w)"
      using setChannel_keys_present[of ?w0 cn ch] ch(1) by simp
    ultimately show ?thesis using r ch Some by (auto simp: s0)
  qed
qed

subsection \<open>Allocation, new channels, execution and queueing of a new job\<close>

lemma allocate_core:
  assumes c: "core w" and J: "status J = Queued" "\<not> timedOut J" "timeoutId J = None"
  shows "core (w\<lparr> jobs := (jobs w)(nextExecutionId w := J),
                  nextExecutionId := nextExecutionId w + 1 \<rparr>)" (is "core ?w'")
proof -
  let ?n = "nextExecutionId w"
  from c have ri: "runInv w" and ci: "chanInv w" and ji: "jobInv w"
    and dk: "distinct (map fst (channels w))" by (simp_all add: core_def)
  have lt: "k \<in> set (runningJobs w) \<Longrightarrow> k < ?n" for k
    using runInvD[OF ri] by (auto simp: runOK_def)
  have nm: "map (nameOf ?w') (runningJobs ?w') = map (nameOf w) (runningJobs w)"
    by (intro map_cong) (use lt in \<open>auto simp: nameOf_def\<close>)
  have "runInv ?w'"
    unfolding runInv_def
  proof (intro conjI ballI)
    show "distinct (map (nameOf ?w') (runningJobs ?w'))"
      by (subst nm) (use ri in \<open>simp add: runInv_def\<close>)
    fix k assume "k \<in> set (runningJobs ?w')"
    then have k: "k \<in> set (runningJobs w)" by simp
    from runInvD[OF ri k] lt[OF k] show "runOK ?w' k" by (auto simp: runOK_def)
  qed
  moreover have "chanInv ?w'"
    unfolding chanInv_def
  proof (intro allI impI)
    fix cn ch assume "map_of (channels ?w') cn = Some ch"
    then have a: "map_of (channels w) cn = Some ch" by simp
    note ok = chanInvD[OF ci a]
    show "chanOK ?w' cn ch"
    proof (rule chanOK_frame[OF ok])
      fix k assume "k \<in> set (queue ch)"
      from chanOK_queueD(1)[OF ok this]
      show "jobs ?w' k = jobs w k \<and> promise ?w' k = promise w k" by auto
    next
      fix k assume "runningJob ch = Some k"
      from chanOK_slotD(1)[OF ok this] lt[of k]
      show "k \<in> set (runningJobs ?w') \<and> channel (jobs ?w' k) = channel (jobs w k)" by auto
    qed simp
  qed
  moreover have "jobInv ?w'"
    using ji J unfolding jobInv_def jobOK_def by (auto simp: active_def)
  ultimately show ?thesis using dk by (simp add: core_def)
qed

lemma allocate_tracked:
  assumes "core w" "tracked X w" "\<not> timedOut J"
  shows "tracked X (w\<lparr> jobs := (jobs w)(nextExecutionId w := J),
                  nextExecutionId := nextExecutionId w + 1 \<rparr>)"
proof -
  from assms(1) have "promise w (nextExecutionId w) = NotStarted"
    by (auto simp: core_def jobInv_def jobOK_def)
  moreover from assms(1) have "nextExecutionId w \<notin> set (runningJobs w)"
    by (auto simp: core_def runInv_def runOK_def)
  ultimately show ?thesis using assms(2,3) unfolding tracked_def by (auto simp: active_def)
qed

lemma addChannel_core:
  assumes c: "core w" and fresh: "map_of (channels w) cn = None"
  shows "core (setChannel cn (newJobChannel cn) w)" (is "core ?w'")
proof -
  from c have ri: "runInv w" and ci: "chanInv w" and ji: "jobInv w"
    and dk: "distinct (map fst (channels w))" by (simp_all add: core_def)
  have "runInv ?w'"
    unfolding runInv_def
  proof (intro conjI ballI)
    show "distinct (map (nameOf ?w') (runningJobs ?w'))" using ri by (simp add: runInv_def)
    fix k assume "k \<in> set (runningJobs ?w')"
    then have k: "k \<in> set (runningJobs w)" by simp
    show "runOK ?w' k"
    proof (rule runOK_frame[OF runInvD[OF ri k]])
      fix cn' c' assume "channel (jobs w k) = Some cn'" "map_of (channels w) cn' = Some c'"
        "runningJob c' = Some k"
      with fresh show "\<exists>ch'. map_of (channels ?w') cn' = Some ch' \<and> runningJob ch' = Some k"
        by (cases "cn' = cn") auto
    qed (use runInvD[OF ri k] in \<open>auto simp: runOK_def\<close>)
  qed
  moreover have "chanInv ?w'"
    unfolding chanInv_def
  proof (intro allI impI)
    fix cn' c' assume a: "map_of (channels ?w') cn' = Some c'"
    show "chanOK ?w' cn' c'"
    proof (cases "cn' = cn")
      case True
      with a show ?thesis by (auto simp: chanOK_def newJobChannel_def)
    next
      case False
      with a have old: "map_of (channels w) cn' = Some c'" by simp
      note ok' = chanInvD[OF ci old]
      show ?thesis
        using chanOK_slotD[OF ok'] by (intro chanOK_frame[OF ok']) auto
    qed
  qed
  moreover have "jobInv ?w'" using ji by (simp add: jobInv_def)
  ultimately show ?thesis using dk by (simp add: core_def setChannel_distinct)
qed

lemma setChannel_tracked: "tracked X (setChannel cn ch w) = tracked X w"
  by (simp add: tracked_def)

lemma execNew_core:
  assumes c: "core w" and j: "j < nextExecutionId w" "status (jobs w j) = Queued"
    "\<not> timedOut (jobs w j)" "channel (jobs w j) = None" "\<not> isRunning w (nameOf w j)"
  shows "core (w\<lparr> runningJobs := runningJobs w @ [j],
                  promise := (promise w)(j := PendingStart), sink := s \<rparr>)" (is "core ?w'")
proof -
  from c have ri: "runInv w" and ci: "chanInv w" and ji: "jobInv w"
    and dk: "distinct (map fst (channels w))" by (simp_all add: core_def)
  have "runInv ?w'"
    unfolding runInv_def
  proof (intro conjI ballI)
    show "distinct (map (nameOf ?w') (runningJobs ?w'))"
      using ri j(5) by (auto simp: runInv_def isRunning_iff)
    fix k assume k: "k \<in> set (runningJobs ?w')"
    show "runOK ?w' k"
    proof (cases "k = j")
      case True
      with j show ?thesis by (simp add: runOK_def active_def)
    next
      case False
      with k have kr: "k \<in> set (runningJobs w)" by simp
      from runInvD[OF ri kr] False show ?thesis by (simp add: runOK_def)
    qed
  qed
  moreover have "chanInv ?w'"
    unfolding chanInv_def
  proof (intro allI impI)
    fix cn ch assume "map_of (channels ?w') cn = Some ch"
    then have a: "map_of (channels w) cn = Some ch" by simp
    note ok = chanInvD[OF ci a]
    show "chanOK ?w' cn ch"
    proof (rule chanOK_frame[OF ok])
      fix k assume "k \<in> set (queue ch)"
      from chanOK_queueD(4)[OF ok this] j(4)
      show "jobs ?w' k = jobs w k \<and> promise ?w' k = promise w k" by auto
    next
      fix k assume "runningJob ch = Some k"
      from chanOK_slotD(1)[OF ok this]
      show "k \<in> set (runningJobs ?w') \<and> channel (jobs ?w' k) = channel (jobs w k)" by auto
    qed simp
  qed
  moreover have "jobInv ?w'"
    using ji j unfolding jobInv_def jobOK_def by (auto simp: active_def)
  ultimately show ?thesis using dk by (simp add: core_def)
qed

lemma execNew_tracked:
  assumes "tracked X w" "promise w j = NotStarted"
  shows "tracked X (w\<lparr> runningJobs := runningJobs w @ [j],
                  promise := (promise w)(j := PendingStart), sink := s \<rparr>)"
  using assms unfolding tracked_def by (auto simp: active_def)

lemma enqueue_core:
  assumes c: "core w" and ch: "map_of (channels w) cn = Some ch"
    and j: "j < nextExecutionId w" "status (jobs w j) = Queued" "promise w j = NotStarted"
      "channel (jobs w j) = Some cn" "\<not> timedOut (jobs w j)"
      "nameOf w j \<notin> nameOf w ` set (queue ch)" "\<forall>k\<in>set (queue ch). k < j"
  shows "core (setChannel cn (ch\<lparr> queue := queue ch @ [j] \<rparr>) w)" (is "core ?w'")
proof -
  from c have ri: "runInv w" and ci: "chanInv w" and ji: "jobInv w"
    and dk: "distinct (map fst (channels w))" by (simp_all add: core_def)
  have "runInv ?w'"
    unfolding runInv_def
  proof (intro conjI ballI)
    show "distinct (map (nameOf ?w') (runningJobs ?w'))" using ri by (simp add: runInv_def)
    fix k assume "k \<in> set (runningJobs ?w')"
    then have k: "k \<in> set (runningJobs w)" by simp
    show "runOK ?w' k"
    proof (rule runOK_frame[OF runInvD[OF ri k]])
      fix cn' c' assume "channel (jobs w k) = Some cn'" "map_of (channels w) cn' = Some c'"
        "runningJob c' = Some k"
      with ch show "\<exists>ch'. map_of (channels ?w') cn' = Some ch' \<and> runningJob ch' = Some k"
        by (cases "cn' = cn") auto
    qed (use runInvD[OF ri k] in \<open>auto simp: runOK_def\<close>)
  qed
  moreover have "chanInv ?w'"
    unfolding chanInv_def
  proof (intro allI impI)
    fix cn' c' assume a: "map_of (channels ?w') cn' = Some c'"
    show "chanOK ?w' cn' c'"
    proof (cases "cn' = cn")
      case True
      with a have c': "c' = ch\<lparr> queue := queue ch @ [j] \<rparr>" by simp
      from chanInvD[OF ci ch] j show ?thesis
        unfolding chanOK_def c' True by (auto simp: sorted_wrt_append)
    next
      case False
      with a have old: "map_of (channels w) cn' = Some c'" by simp
      note ok' = chanInvD[OF ci old]
      show ?thesis
        using chanOK_slotD[OF ok'] by (intro chanOK_frame[OF ok']) auto
    qed
  qed
  moreover have "jobInv ?w'" using ji by (simp add: jobInv_def)
  ultimately show ?thesis using dk by (simp add: core_def setChannel_distinct)
qed

subsection \<open>The promotion pass and \<open>_unregisterJob\<close>\<close>

lemma isRunning_setChannel [simp]: "isRunning (setChannel cn ch w) = isRunning w"
  by (simp add: isRunning_iff fun_eq_iff)

lemma grows_refl: "grows w w"
  by (simp add: grows_def)

lemma grows_trans: "grows w w1 \<Longrightarrow> grows w1 w2 \<Longrightarrow> grows w w2"
  unfolding grows_def
  apply (intro conjI)
         apply simp
        apply simp
       apply simp
      apply simp
     apply simp
    apply blast
   apply metis
  apply metis
  done

lemma tryRunNext_inv:
  assumes c: "core w" and t: "tracked X w"
  shows "\<exists>w'. tryRunNextJobInChannel w cn = Inr w' \<and> core w' \<and> tracked X w' \<and> grows w w'"
proof (cases "map_of (channels w) cn")
  case None
  with c t show ?thesis by (simp add: tryRunNextJobInChannel_def grows_refl)
next
  case (Some ch)
  from c have ci: "chanInv w" by (simp add: core_def)
  note ok = chanInvD[OF ci Some]
  show ?thesis
  proof (cases "runningJob ch \<noteq> None \<or> scanQueue (\<lambda>j. isRunning w (nameOf w j)) (queue ch) = None")
    case True
    with c t Some show ?thesis
      by (auto simp: tryRunNextJobInChannel_def grows_refl)
  next
    case False
    then obtain k q' where idle: "runningJob ch = None"
      and sc: "scanQueue (\<lambda>j. isRunning w (nameOf w j)) (queue ch) = Some (k, q')" by auto
    from scanQueue_SomeD[OF sc] obtain pre post where
      q: "queue ch = pre @ k # post" "q' = pre @ post" "\<not> isRunning w (nameOf w k)" by blast
    have kq: "k \<in> set (queue ch)" using q by simp
    note kf = chanOK_queueD[OF ok kq]
    let ?w' = "(setChannel cn (ch\<lparr> queue := pre @ post, runningJob := Some k \<rparr>) w)
               \<lparr> runningJobs := runningJobs w @ [k],
                 promise := (promise w)(k := PendingStart),
                 sink := sink w @ [StartJob (nameOf w k)] \<rparr>"
    have r: "tryRunNextJobInChannel w cn = Inr ?w'"
      using Some idle sc q kf(2) by (simp add: tryRunNextJobInChannel_def executeJob_def)
    have "core ?w'" by (rule promote_core[OF c Some idle q(1,3)])
    moreover have "tracked X ?w'" by (rule promote_tracked[OF t kf(3)])
    moreover have "grows w ?w'"
      using kf(3) setChannel_keys_present[OF Some] by (auto simp: grows_def)
    ultimately show ?thesis using r by blast
  qed
qed

lemma unstallLoop_inv:
  assumes "core w" "tracked X w"
  shows "\<exists>w'. unstallLoop cns w = Inr w' \<and> core w' \<and> tracked X w' \<and> grows w w'"
  using assms
proof (induction cns arbitrary: w)
  case Nil
  then show ?case by (simp add: grows_refl)
next
  case (Cons cn cns)
  from tryRunNext_inv[OF Cons.prems, of cn] obtain w1 where
    w1: "tryRunNextJobInChannel w cn = Inr w1" "core w1" "tracked X w1" "grows w w1" by blast
  from Cons.IH[OF w1(2,3)] obtain w2 where
    w2: "unstallLoop cns w1 = Inr w2" "core w2" "tracked X w2" "grows w1 w2" by blast
  from w1 w2 grows_trans[OF w1(4) w2(4)] show ?case by auto
qed

lemma tryToUnstall_inv:
  assumes "core w" "tracked X w"
  shows "\<exists>w'. tryToUnstallChannels w = Inr w' \<and> core w' \<and> tracked X w' \<and> grows w w'"
  unfolding tryToUnstallChannels_def by (rule unstallLoop_inv[OF assms])

lemma unregisterJob_inv:
  assumes c: "core w" and t: "tracked X w" and jr: "j \<in> set (runningJobs w)"
  shows "\<exists>w'. unregisterJob w j = Inr w' \<and> core w' \<and> tracked (insert j X) w' \<and>
           j \<notin> set (runningJobs w') \<and> jobs w' = jobs w \<and> timers w' = timers w \<and>
           calls w' = calls w \<and> nextExecutionId w' = nextExecutionId w \<and>
           promise w' j = promise w j"
proof -
  from remove_core[OF c jr] obtain w1 where
    w1: "removeJobFromChannel (w\<lparr> runningJobs := remove1 j (runningJobs w) \<rparr>)
           (channel (jobs w j)) j = Inr w1" "core w1" "jobs w1 = jobs w" "promise w1 = promise w"
       "timers w1 = timers w" "calls w1 = calls w" "nextExecutionId w1 = nextExecutionId w"
       "set (runningJobs w1) = set (runningJobs w) - {j}" by blast
  have t1: "tracked (insert j X) w1"
    using t w1(3,4,5,8) unfolding tracked_def by auto
  from tryToUnstall_inv[OF w1(2) t1] obtain w2 where
    w2: "tryToUnstallChannels w1 = Inr w2" "core w2" "tracked (insert j X) w2" "grows w1 w2"
    by blast
  from c jr have "active (promise w j)" by (auto simp: core_def runInv_def runOK_def)
  then have ns: "promise w1 j \<noteq> NotStarted" by (simp add: w1(4) active_def)
  with w2(4) w1(8) have "j \<notin> set (runningJobs w2)" "promise w2 j = promise w1 j"
    unfolding grows_def by auto
  with w1 w2 jr show ?thesis
    by (auto simp: unregisterJob_def grows_def)
qed

subsection \<open>The callbacks of the promise chain\<close>

lemma inv_initial: "inv initial"
  by (simp add: inv_def core_def runInv_def chanInv_def jobInv_def jobOK_def tracked_def
      initial_def active_def newJobImpl_def)

lemma invD_job:
  assumes "inv w"
  shows "jobOK j (jobs w j) (promise w j) (nextExecutionId w)"
    and "active (promise w j) \<Longrightarrow> \<not> timedOut (jobs w j) \<Longrightarrow> j \<in> set (runningJobs w)"
    and "j \<in> set (runningJobs w) \<Longrightarrow> \<not> timedOut (jobs w j) \<and> active (promise w j)"
    and "j \<in> set (timers w) \<Longrightarrow> timeoutId (jobs w j) = Some j \<and>
           promise w j \<noteq> NotStarted \<and> promise w j \<noteq> PendingStart"
proof -
  from assms have ri: "runInv w" and ji: "jobInv w" and t: "tracked {} w"
    by (simp_all add: inv_def core_def)
  from ji show "jobOK j (jobs w j) (promise w j) (nextExecutionId w)"
    unfolding jobInv_def by blast
  from t show "active (promise w j) \<Longrightarrow> \<not> timedOut (jobs w j) \<Longrightarrow> j \<in> set (runningJobs w)"
    unfolding tracked_def by blast
  from ri show "j \<in> set (runningJobs w) \<Longrightarrow> \<not> timedOut (jobs w j) \<and> active (promise w j)"
    unfolding runInv_def runOK_def by blast
  from t show "j \<in> set (timers w) \<Longrightarrow> timeoutId (jobs w j) = Some j \<and>
           promise w j \<noteq> NotStarted \<and> promise w j \<noteq> PendingStart"
    unfolding tracked_def by blast
qed

lemma startResolved_inv:
  assumes i: "inv w" and p: "promise w j = PendingStart"
  shows "inv (startResolved w j jobId sync)" (is "inv ?w'")
proof -
  note jo = invD_job(1)[OF i, of j]
  from jo p have nt: "\<not> timedOut (jobs w j)" by (auto simp: jobOK_def)
  with invD_job(2)[OF i, of j] p have jr: "j \<in> set (runningJobs w)" by (simp add: active_def)
  from jo p have st: "status (jobs w j) \<noteq> Finished" "nextExecutionId w > j"
    by (auto simp: jobOK_def)
  from i have c: "core w" and t: "tracked {} w" by (simp_all add: inv_def)
  have "core ?w'"
  proof (rule local_update_core[OF c, of _ j])
    show "jobOK j (jobs ?w' j) (promise ?w' j) (nextExecutionId w)"
      using jo nt st p
      by (auto simp: startResolved_def updJob_def setStatus_def jobOK_def active_def Let_def
          split: option.splits)
  qed (use p nt in \<open>auto simp: startResolved_def updJob_def setStatus_def active_def Let_def
          split: option.splits\<close>)
  moreover have "tracked {} ?w'"
    using t jr p unfolding tracked_def
    by (auto simp: startResolved_def updJob_def setStatus_def active_def Let_def
          split: option.splits)
  ultimately show ?thesis by (simp add: inv_def)
qed

lemma startRejected_inv:
  assumes i: "inv w" and p: "promise w j = PendingStart"
  shows "inv (startRejected w j e)" (is "inv ?w'")
proof -
  note jo = invD_job(1)[OF i, of j]
  from jo p have nt: "\<not> timedOut (jobs w j)" by (auto simp: jobOK_def)
  from i have c: "core w" and t: "tracked {} w" by (simp_all add: inv_def)
  have "core ?w'"
  proof (rule local_update_core[OF c, of _ j])
    show "jobOK j (jobs ?w' j) (promise ?w' j) (nextExecutionId w)"
      using jo nt p by (auto simp: startRejected_def jobOK_def active_def)
  qed (use p nt in \<open>auto simp: startRejected_def active_def\<close>)
  moreover have "tracked {} ?w'"
    using t p unfolding tracked_def by (auto simp: startRejected_def active_def)
  ultimately show ?thesis by (simp add: inv_def)
qed

lemma workSettled_inv:
  assumes i: "inv w" and p: "promise w j = PendingWork"
  shows "inv (workSettled w j r)" (is "inv ?w'")
proof -
  note jo = invD_job(1)[OF i, of j]
  from i have c: "core w" and t: "tracked {} w" by (simp_all add: inv_def)
  have "core ?w'"
  proof (rule local_update_core[OF c, of _ j])
    show "jobOK j (jobs ?w' j) (promise ?w' j) (nextExecutionId w)"
      using jo p by (auto simp: workSettled_def jobOK_def active_def)
  qed (use p invD_job(3)[OF i, of j] in \<open>auto simp: workSettled_def active_def\<close>)
  moreover have "tracked {} ?w'"
    using t p unfolding tracked_def by (auto simp: workSettled_def active_def)
  ultimately show ?thesis by (simp add: inv_def)
qed

lemma classifyAndLog_frame:
  "runningJobs (classifyAndLog w j) = runningJobs w"
  "channels (classifyAndLog w j) = channels w"
  "nextExecutionId (classifyAndLog w j) = nextExecutionId w"
  "calls (classifyAndLog w j) = calls w"
  "jobs (classifyAndLog w j) = jobs w"
  "k \<noteq> j \<Longrightarrow> promise (classifyAndLog w j) k = promise w k"
  "promise (classifyAndLog w j) j = PendingFinishLog (classify (jobs w j))"
  by (simp_all add: classifyAndLog_def Let_def split: option.splits)

lemma classifyAndLog_timers: "set (timers (classifyAndLog w j)) \<subseteq> set (timers w)"
  by (auto simp: classifyAndLog_def Let_def split: option.splits)

lemma conclude_frame:
  "runningJobs (conclude w j e) = runningJobs w"
  "channels (conclude w j e) = channels w"
  "nextExecutionId (conclude w j e) = nextExecutionId w"
  "calls (conclude w j e) = calls w"
  "k \<noteq> j \<Longrightarrow> jobs (conclude w j e) k = jobs w k \<and> promise (conclude w j e) k = promise w k"
  "taskName (jobs (conclude w j e) k) = taskName (jobs w k)"
  "channel (jobs (conclude w j e) k) = channel (jobs w k)"
  "timedOut (jobs (conclude w j e) k) = timedOut (jobs w k)"
  "timeoutId (jobs (conclude w j e) k) = timeoutId (jobs w k)"
  "status (jobs (conclude w j e) k) = status (jobs w k)"
  by (simp_all add: conclude_def classifyAndLog_frame updJob_def jobError_def
      split: option.splits)

lemma conclude_timers: "set (timers (conclude w j e)) \<subseteq> set (timers w)"
proof -
  have "set (timers (classifyAndLog v j)) \<subseteq> set (timers w)" if "timers v = timers w" for v
    using classifyAndLog_timers[of v j] that by simp
  then show ?thesis
    by (simp add: conclude_def updJob_def split: option.splits)
qed

lemma conclude_phase: "\<exists>r. promise (conclude w j e) j = PendingFinishLog r"
  by (simp add: conclude_def classifyAndLog_frame split: option.splits)

lemma conclude_inv:
  assumes i: "inv w" and p: "promise w j = PendingConclude e"
  shows "inv (conclude w j e)" (is "inv ?w'")
proof -
  note jo = invD_job(1)[OF i, of j]
  from i have c: "core w" and t: "tracked {} w" by (simp_all add: inv_def)
  from conclude_phase[of w j e] obtain r where r: "promise ?w' j = PendingFinishLog r" ..
  have "core ?w'"
  proof (rule local_update_core[OF c, of _ j])
    show "jobOK j (jobs ?w' j) (promise ?w' j) (nextExecutionId w)"
      using jo p unfolding jobOK_def r conclude_frame by (auto simp: active_def)
    show "j \<in> set (runningJobs w) \<Longrightarrow> \<not> timedOut (jobs ?w' j) \<and> active (promise ?w' j)"
      using invD_job(3)[OF i, of j] by (simp add: r conclude_frame active_def)
  qed (use p in \<open>simp_all add: conclude_frame\<close>)
  moreover have "tracked {} ?w'"
    unfolding tracked_def
  proof (intro allI conjI impI)
    fix k
    assume "k \<notin> {}" "active (promise ?w' k) \<and> \<not> timedOut (jobs ?w' k)"
    then show "k \<in> set (runningJobs ?w')"
      using invD_job(2)[OF i, of k] p conclude_frame(5)[of k j w e]
      by (cases "k = j") (auto simp: conclude_frame active_def)
  next
    fix k assume "k \<in> set (timers ?w')"
    with conclude_timers[of w j e] have kt: "k \<in> set (timers w)" by blast
    note f = invD_job(4)[OF i kt]
    from f show "timeoutId (jobs ?w' k) = Some k" by (simp add: conclude_frame)
    from f r conclude_frame(5)[of k j w e]
    show "promise ?w' k \<noteq> NotStarted" "promise ?w' k \<noteq> PendingStart"
      by (cases "k = j"; simp)+
  qed
  ultimately show ?thesis by (simp add: inv_def)
qed

lemma handle_inv:
  assumes i: "inv w" and f: "\<And>J. f J = J\<lparr> warnings := ws J, errors := es J \<rparr>"
  shows "inv (updJob j f w)" (is "inv ?w'")
proof -
  have e: "runningJobs ?w' = runningJobs w" "channels ?w' = channels w" "promise ?w' = promise w"
    "nextExecutionId ?w' = nextExecutionId w" "timers ?w' = timers w"
    "nameOf ?w' = nameOf w" "\<And>k. timedOut (jobs ?w' k) = timedOut (jobs w k)"
    "\<And>k. status (jobs ?w' k) = status (jobs w k)" "\<And>k. channel (jobs ?w' k) = channel (jobs w k)"
    "\<And>k. timeoutId (jobs ?w' k) = timeoutId (jobs w k)"
    by (auto simp: updJob_def f nameOf_def fun_eq_iff)
  from i have ri: "runInv w" and ci: "chanInv w" and ji: "jobInv w"
    and dk: "distinct (map fst (channels w))" and t: "tracked {} w"
    by (simp_all add: inv_def core_def)
  have "runInv ?w'"
    unfolding runInv_def runOK_def e using ri[unfolded runInv_def runOK_def] .
  moreover have "chanInv ?w'"
    unfolding chanInv_def chanOK_def e using ci[unfolded chanInv_def chanOK_def] .
  moreover have "jobInv ?w'"
    unfolding jobInv_def jobOK_def e using ji[unfolded jobInv_def jobOK_def] .
  moreover have "tracked {} ?w'"
    unfolding tracked_def e using t[unfolded tracked_def] .
  ultimately show ?thesis using dk by (simp add: inv_def core_def e)
qed

subsection \<open>Timer, last callback and job creation\<close>

lemma tracked_mono: "tracked X w \<Longrightarrow> X \<subseteq> Y \<Longrightarrow> tracked Y w"
  unfolding tracked_def by blast

lemma growsD:
  assumes "grows w w'" "promise w j \<noteq> NotStarted"
  shows "promise w' j = promise w j" "j \<in> set (runningJobs w') \<Longrightarrow> j \<in> set (runningJobs w)"
proof -
  from assms(1) have a: "promise w' j = promise w j \<or>
          (promise w j = NotStarted \<and> promise w' j = PendingStart)"
    and b: "\<forall>j\<in>set (runningJobs w'). j \<in> set (runningJobs w) \<or> promise w j = NotStarted"
    unfolding grows_def by blast+
  from a assms(2) show "promise w' j = promise w j" by blast
  from b assms(2) show "j \<in> set (runningJobs w') \<Longrightarrow> j \<in> set (runningJobs w)" by blast
qed

lemma timeoutJob_inv:
  assumes i: "inv w" and jt: "j \<in> set (timers w)" and jr: "j \<in> set (runningJobs w)"
  shows "\<exists>w1. timeoutJob w j = Inr w1 \<and> inv (w1\<lparr> timers := removeAll j (timers w1) \<rparr>) \<and>
           j \<notin> set (runningJobs w1) \<and> timedOut (jobs w1 j) \<and> promise w1 j = promise w j \<and>
           calls w1 = calls w \<and> nextExecutionId w1 = nextExecutionId w \<and>
           (\<forall>k. k \<noteq> j \<longrightarrow> jobs w1 k = jobs w k) \<and>
           status (jobs w1 j) = status (jobs w j)"
proof -
  from i have c: "core w" and t: "tracked {} w" by (simp_all add: inv_def)
  note jf = invD_job(4)[OF i jt]
  from unregisterJob_inv[OF c t jr] obtain w0 where
    w0: "unregisterJob w j = Inr w0" "core w0" "tracked {j} w0" "j \<notin> set (runningJobs w0)"
      "jobs w0 = jobs w" "timers w0 = timers w" "calls w0 = calls w"
      "nextExecutionId w0 = nextExecutionId w" "promise w0 j = promise w j" by auto
  let ?w1 = "updJob j (\<lambda>J. J\<lparr> timedOut := True \<rparr>) w0"
  let ?w' = "?w1\<lparr> timers := removeAll j (timers ?w1) \<rparr>"
  have r: "timeoutJob w j = Inr ?w1" using w0(1) by (simp add: timeoutJob_def)
  have "core ?w'"
  proof (rule local_update_core[OF w0(2), of _ j])
    show "jobOK j (jobs ?w' j) (promise ?w' j) (nextExecutionId w0)"
      using invD_job(1)[OF i, of j] jf w0(5,8,9)
      by (auto simp: updJob_def jobOK_def active_def)
  qed (use w0(4,9) jf in \<open>auto simp: updJob_def\<close>)
  moreover have "tracked {} ?w'"
    using w0(3) unfolding tracked_def by (auto simp: updJob_def)
  ultimately have "inv ?w'" by (simp add: inv_def)
  then show ?thesis
    using r w0 by (auto simp: updJob_def)
qed

lemma finish_update:
  assumes c: "core w1" and t: "tracked {j} w1" and nr: "j \<notin> set (runningJobs w1)"
    and p: "promise w1 j = PendingFinishLog r"
  shows "inv ((updJob j (setStatus Finished r) w1)\<lparr> promise := (promise w1)(j := Done) \<rparr>)"
    (is "inv ?w'")
proof -
  from c have jo: "jobOK j (jobs w1 j) (promise w1 j) (nextExecutionId w1)"
    by (simp add: core_def jobInv_def)
  have "core ?w'"
  proof (rule local_update_core[OF c, of _ j])
    show "jobOK j (jobs ?w' j) (promise ?w' j) (nextExecutionId w1)"
      using jo p by (auto simp: updJob_def setStatus_def jobOK_def active_def)
  qed (use nr p in \<open>auto simp: updJob_def setStatus_def\<close>)
  moreover have "tracked {} ?w'"
    using t unfolding tracked_def by (auto simp: updJob_def setStatus_def active_def)
  ultimately show ?thesis by (simp add: inv_def)
qed

lemma finishSettled_inv:
  assumes i: "inv w" and p: "promise w j = PendingFinishLog r"
  shows "\<exists>w'. finishSettled w j r = Inr w' \<and> inv w' \<and> j \<notin> set (runningJobs w') \<and>
           calls w' = calls w \<and> status (jobs w' j) = Finished \<and> result (jobs w' j) = r \<and>
           promise w' j = Done"
proof -
  from i have c: "core w" and t: "tracked {} w" by (simp_all add: inv_def)
  show ?thesis
  proof (cases "timedOut (jobs w j)")
    case True
    with invD_job(3)[OF i, of j] have nr: "j \<notin> set (runningJobs w)" by auto
    have "inv ((updJob j (setStatus Finished r) w)\<lparr> promise := (promise w)(j := Done) \<rparr>)"
      by (rule finish_update[OF c tracked_mono[OF t] nr p]) simp
    with True nr show ?thesis by (simp add: finishSettled_def updJob_def setStatus_def)
  next
    case False
    with invD_job(2)[OF i, of j] p have jr: "j \<in> set (runningJobs w)" by (simp add: active_def)
    from unregisterJob_inv[OF c t jr] obtain w0 where
      w0: "unregisterJob w j = Inr w0" "core w0" "tracked {j} w0" "j \<notin> set (runningJobs w0)"
        "jobs w0 = jobs w" "timers w0 = timers w" "calls w0 = calls w"
        "nextExecutionId w0 = nextExecutionId w" "promise w0 j = promise w j" by auto
    from tryToUnstall_inv[OF w0(2,3)] obtain w1 where
      w1: "tryToUnstallChannels w0 = Inr w1" "core w1" "tracked {j} w1" "grows w0 w1" by blast
    from w0(9) p have ns: "promise w0 j \<noteq> NotStarted" by simp
    from growsD[OF w1(4) ns] w0(4,9) p
    have f1: "j \<notin> set (runningJobs w1)" "promise w1 j = PendingFinishLog r" by auto
    from w1(4) w0(6,7) have f2: "timers w1 = timers w" "calls w1 = calls w"
      unfolding grows_def by simp_all
    note f = f1 f2
    have "inv ((updJob j (setStatus Finished r) w1)\<lparr> promise := (promise w1)(j := Done) \<rparr>)"
      by (rule finish_update[OF w1(2,3) f(1) f(2)])
    with False w0(1) w1(1) f show ?thesis
      by (simp add: finishSettled_def updJob_def setStatus_def)
  qed
qed

lemma createAndRunJob_inv:
  assumes i: "inv w" and nr: "findRunningJob w tn = None"
    and nq: "\<And>cn. optChannel options = Some cn \<Longrightarrow>
               \<exists>ch. map_of (channels w) cn = Some ch \<and> findWhere w (queue ch) tn = None"
  shows "\<exists>w'. createAndRunJob w tn ex tmo options = Inr (nextExecutionId w, w') \<and> inv w' \<and>
           nextExecutionId w' = nextExecutionId w + 1 \<and>
           taskName (jobs w' (nextExecutionId w)) = tn \<and>
           executor (jobs w' (nextExecutionId w)) = ex \<and>
           status (jobs w' (nextExecutionId w)) = Queued \<and>
           (optChannel options = None \<longrightarrow>
              runningJobs w' = runningJobs w @ [nextExecutionId w] \<and>
              promise w' (nextExecutionId w) = PendingStart)"
proof -
  let ?n = "nextExecutionId w"
  let ?J = "newJobImpl ?n tn ex tmo (optChannel options)
              (case optSilent options of Some b \<Rightarrow> b | None \<Rightarrow> False)"
  let ?w1 = "w\<lparr> jobs := (jobs w)(?n := ?J), nextExecutionId := ?n + 1 \<rparr>"
  from i have c: "core w" and t: "tracked {} w" by (simp_all add: inv_def)
  have c1: "core ?w1" by (rule allocate_core[OF c]) (simp_all add: newJobImpl_def)
  have t1: "tracked {} ?w1" by (rule allocate_tracked[OF c t]) (simp add: newJobImpl_def)
  have pn: "promise w ?n = NotStarted"
    using invD_job(1)[OF i, of ?n] by (simp add: jobOK_def)
  have old: "k < ?n \<Longrightarrow> nameOf ?w1 k = nameOf w k" for k by (simp add: nameOf_def)
  have rlt: "k \<in> set (runningJobs w) \<Longrightarrow> k < ?n" for k
    using c by (auto simp: core_def runInv_def runOK_def)
  have free: "\<not> isRunning ?w1 tn"
    using nr rlt old by (fastforce simp: isRunning_iff findRunningJob_def findWhere_None)
  have nm: "nameOf ?w1 ?n = tn" by (simp add: nameOf_def newJobImpl_def)
  show ?thesis
  proof (cases "optChannel options")
    case None
    let ?w2 = "?w1\<lparr> runningJobs := runningJobs ?w1 @ [?n],
                  promise := (promise ?w1)(?n := PendingStart),
                  sink := sink ?w1 @ [StartJob (nameOf ?w1 ?n)] \<rparr>"
    have "core ?w2"
      by (rule execNew_core[OF c1]) (use None free nm in \<open>simp_all add: newJobImpl_def\<close>)
    moreover have "tracked {} ?w2"
      by (rule execNew_tracked[OF t1]) (simp add: pn)
    moreover have "createAndRunJob w tn ex tmo options = Inr (?n, ?w2)"
      using None free nm by (simp add: createAndRunJob_def executeJob_def Let_def newJobImpl_def)
    ultimately show ?thesis using None by (simp add: inv_def newJobImpl_def)
  next
    case (Some cn)
    from nq[OF Some] obtain ch where
      ch: "map_of (channels w) cn = Some ch" "findWhere w (queue ch) tn = None" by blast
    have ch1: "map_of (channels ?w1) cn = Some ch" using ch by simp
    from c ch(1) have qlt: "k \<in> set (queue ch) \<Longrightarrow> k < ?n" for k
      by (auto simp: core_def chanInv_def chanOK_def)
    let ?w2 = "setChannel cn (ch\<lparr> queue := queue ch @ [?n] \<rparr>) ?w1"
    have c2: "core ?w2"
    proof (rule enqueue_core[OF c1 ch1])
      show "nameOf ?w1 ?n \<notin> nameOf ?w1 ` set (queue ch)"
        using ch(2) qlt old nm by (fastforce simp: findWhere_None)
    qed (use Some pn qlt in \<open>simp_all add: newJobImpl_def\<close>)
    have t2: "tracked {} ?w2" using t1 by (simp add: setChannel_tracked)
    from tryRunNext_inv[OF c2 t2, of cn] obtain w3 where
      w3: "tryRunNextJobInChannel ?w2 cn = Inr w3" "core w3" "tracked {} w3" "grows ?w2 w3"
      by blast
    have "createAndRunJob w tn ex tmo options = Inr (?n, w3)"
      using Some ch1 w3(1)
      by (simp add: createAndRunJob_def getChannel_def queueJobToChannel_def Let_def)
    with w3 Some show ?thesis by (auto simp: inv_def grows_def newJobImpl_def)
  qed
qed

subsection \<open>Every step\<close>

lemma findRunningJob_setChannel [simp]:
  "findRunningJob (setChannel cn ch w) tn = findRunningJob w tn"
  by (simp add: findRunningJob_def findWhere_def)

lemma runTask_inv:
  assumes i: "inv w"
  shows "\<exists>j w'. runTask w tn ex tmo options = Inr (j, w') \<and> inv w'"
proof (cases "findRunningJob w tn")
  case (Some j)
  with i show ?thesis by (simp add: runTask_def)
next
  case None
  show ?thesis
  proof (cases "optChannel options")
    case nc: None
    from createAndRunJob_inv[OF i None, of options ex tmo] nc None show ?thesis
      by (auto simp: runTask_def findQueuedTaskInChannel_def)
  next
    case (Some cn)
    show ?thesis
    proof (cases "map_of (channels w) cn")
      case (Some ch)
      note ch = this
      show ?thesis
      proof (cases "findWhere w (queue ch) tn")
        case (Some k)
        with i None ch \<open>optChannel options = Some cn\<close> show ?thesis
          by (simp add: runTask_def findQueuedTaskInChannel_def getChannel_def)
      next
        case nq: None
        have "\<exists>w'. createAndRunJob w tn ex tmo options = Inr (nextExecutionId w, w') \<and> inv w'"
          using createAndRunJob_inv[OF i None, of options ex tmo] ch nq
            \<open>optChannel options = Some cn\<close> by auto
        with None ch nq \<open>optChannel options = Some cn\<close> show ?thesis
          by (auto simp: runTask_def findQueuedTaskInChannel_def getChannel_def)
      qed
    next
      case nch: None
      let ?w0 = "setChannel cn (newJobChannel cn) w"
      from i have "inv ?w0"
        by (simp add: inv_def addChannel_core[OF _ nch] setChannel_tracked)
      moreover have "findRunningJob ?w0 tn = None" using None by simp
      moreover have "\<And>cn'. optChannel options = Some cn' \<Longrightarrow>
          \<exists>ch. map_of (channels ?w0) cn' = Some ch \<and> findWhere ?w0 (queue ch) tn = None"
        using Some by (auto simp: newJobChannel_def findWhere_def)
      ultimately have
        "\<exists>w'. createAndRunJob ?w0 tn ex tmo options = Inr (nextExecutionId ?w0, w') \<and> inv w'"
        using createAndRunJob_inv[of ?w0 tn options ex tmo] by blast
      with None nch Some show ?thesis
        by (auto simp: runTask_def findQueuedTaskInChannel_def getChannel_def
            newJobChannel_def findWhere_def)
    qed
  qed
qed

text \<open>A timer that fires for a job that has left the running set reaches the throw of
  \<open>_unregisterJob\<close>; no other event reaches a throw.\<close>

lemma timerFires_orphan:
  "j \<notin> set (runningJobs w) \<Longrightarrow> step w (TimerFires j) = Inl OrphanedJob"
  by (simp add: timeoutJob_def unregisterJob_def)

lemma step_ok:
  assumes i: "inv w" and en: "enabled w e"
    and reg: "\<And>j. e = TimerFires j \<Longrightarrow> j \<in> set (runningJobs w)"
  shows "\<exists>w'. step w e = Inr w' \<and> inv w'"
proof (cases e)
  case (RunTask tn ex tmo options)
  from runTask_inv[OF i, of tn ex tmo options] RunTask show ?thesis by auto
next
  case (StartJobResolved j jobId sync)
  with en startResolved_inv[OF i, of j jobId sync] show ?thesis by simp
next
  case (StartJobRejected j x)
  with en startRejected_inv[OF i, of j x] show ?thesis by simp
next
  case (WorkSettled j r)
  with en workSettled_inv[OF i, of j r] show ?thesis by simp
next
  case (Conclude j)
  with en obtain x where "promise w j = PendingConclude x" by (auto split: phase.splits)
  with Conclude conclude_inv[OF i this] show ?thesis by simp
next
  case (FinishJobSettled j)
  with en obtain r where p: "promise w j = PendingFinishLog r" by (auto split: phase.splits)
  from finishSettled_inv[OF i p] FinishJobSettled p show ?thesis by auto
next
  case (TimerFires j)
  with en have "j \<in> set (timers w)" by simp
  from timeoutJob_inv[OF i this reg[OF TimerFires]] TimerFires show ?thesis by auto
next
  case (JobWarning j m)
  have "inv (updJob j (jobWarning m) w)"
    by (rule handle_inv[OF i, where ws = "\<lambda>J. warnings J @ [m]" and es = errors]) (simp add: jobWarning_def)
  with JobWarning show ?thesis by simp
next
  case (JobError j m)
  have "inv (updJob j (jobError m) w)"
    by (rule handle_inv[OF i, where ws = warnings and es = "\<lambda>J. errors J @ [m]"]) (simp add: jobError_def)
  with JobError show ?thesis by simp
qed

lemma step_inv:
  assumes i: "inv w" and en: "enabled w e" and s: "step w e = Inr w'"
  shows "inv w'"
proof -
  have "j \<in> set (runningJobs w)" if "e = TimerFires j" for j
    using s that timerFires_orphan[of j w] by (cases "j \<in> set (runningJobs w)") auto
  from step_ok[OF i en this] s show ?thesis by auto
qed

lemma reachable_inv: "reachable w \<Longrightarrow> inv w"
proof (induction rule: reachable.induct)
  case reachable_initial
  show ?case by (rule inv_initial)
next
  case (reachable_step w e w')
  from step_inv[OF reachable_step.IH reachable_step.hyps(2,3)] show ?case .
qed

lemma run_reachable: "reachable w \<Longrightarrow> run w es = Some w' \<Longrightarrow> reachable w'"
proof (induction es arbitrary: w)
  case Nil
  then show ?case by simp
next
  case (Cons e es)
  from Cons.prems(2) obtain w1 where en: "enabled w e" and s: "step w e = Inr w1"
    and r: "run w1 es = Some w'"
    by (auto split: if_splits sum.splits)
  from reachable_step[OF Cons.prems(1) en s] have "reachable w1" .
  from Cons.IH[OF this r] show ?case .
qed

subsection \<open>Unique names and settled channels\<close>



lemma distinct_map_eq:
  "distinct (map f xs) \<Longrightarrow> j \<in> set xs \<Longrightarrow> k \<in> set xs \<Longrightarrow> f j = f k \<Longrightarrow> j = k"
  by (auto simp: distinct_map dest: inj_onD)

text \<open>A promotion attempt settles its channel and unsettles none.\<close>

lemma isRunning_mono:
  "set (runningJobs w) \<subseteq> set (runningJobs w') \<Longrightarrow> nameOf w' = nameOf w \<Longrightarrow>
     isRunning w tn \<Longrightarrow> isRunning w' tn"
  by (auto simp: isRunning_iff)

lemma tryRunNext_settled:
  assumes "tryRunNextJobInChannel w cn = Inr w'"
  shows "settled w' cn" and "settled w c \<Longrightarrow> settled w' c"
proof -
  have "settled w' cn \<and> (settled w c \<longrightarrow> settled w' c)"
  proof (cases "map_of (channels w) cn")
    case None
    with assms show ?thesis by (simp add: tryRunNextJobInChannel_def settled_def)
  next
    case (Some ch)
    show ?thesis
    proof (cases "runningJob ch")
      case (Some k)
      with assms \<open>map_of (channels w) cn = Some ch\<close> show ?thesis
        by (simp add: tryRunNextJobInChannel_def settled_def)
    next
      case None
      note idle = this
      show ?thesis
      proof (cases "scanQueue (\<lambda>j. isRunning w (nameOf w j)) (queue ch)")
        case None
        with assms idle Some show ?thesis
          by (simp add: tryRunNextJobInChannel_def settled_def scanQueue_None)
      next
        case (Some a)
        obtain k q' where a: "a = (k, q')" by (cases a)
        from assms idle \<open>map_of (channels w) cn = Some ch\<close> Some a have
          w': "w' = (setChannel cn (ch\<lparr> queue := q', runningJob := Some k \<rparr>) w)
               \<lparr> runningJobs := runningJobs w @ [k],
                 promise := (promise w)(k := PendingStart),
                 sink := sink w @ [StartJob (nameOf w k)] \<rparr>"
          by (auto simp: tryRunNextJobInChannel_def executeJob_def split: if_splits)
        have mono: "isRunning w tn \<Longrightarrow> isRunning w' tn" for tn
          by (rule isRunning_mono[of w w']) (auto simp: w')
        have nm: "nameOf w' = nameOf w" by (simp add: w')
        have 1: "settled w' cn" by (simp add: settled_def w')
        have 2: "settled w' c" if "settled w c"
        proof (cases "c = cn")
          case True with 1 show ?thesis by simp
        next
          case False
          then have "map_of (channels w') c = map_of (channels w) c" by (simp add: w')
          with that mono show ?thesis
            unfolding settled_def nm by (auto split: option.splits)
        qed
        from 1 2 show ?thesis by blast
      qed
    qed
  qed
  then show "settled w' cn" and "settled w c \<Longrightarrow> settled w' c" by blast+
qed

lemma unstallLoop_settled:
  assumes "unstallLoop cns w = Inr w'"
  shows "(\<forall>c\<in>set cns. settled w' c) \<and> (\<forall>c. settled w c \<longrightarrow> settled w' c)"
  using assms
proof (induction cns arbitrary: w)
  case Nil
  then show ?case by simp
next
  case (Cons cn cns)
  from Cons.prems obtain w1 where
    w1: "tryRunNextJobInChannel w cn = Inr w1" "unstallLoop cns w1 = Inr w'"
    by (auto split: sum.splits)
  from Cons.IH[OF w1(2)] tryRunNext_settled[OF w1(1)] show ?case by auto
qed

lemma tryToUnstall_settled:
  assumes c: "core w" and t: "tracked X w" and r: "tryToUnstallChannels w = Inr w'"
  shows "settled w' c"
proof (cases "c \<in> set (map fst (channels w))")
  case True
  with unstallLoop_settled[OF r[unfolded tryToUnstallChannels_def]] show ?thesis by blast
next
  case False
  from tryToUnstall_inv[OF c t] r have "grows w w'" by auto
  then have "map fst (channels w') = map fst (channels w)" by (simp add: grows_def)
  with False have "map_of (channels w') c = None"
    by (metis map_of_eq_None_iff set_map)
  then show ?thesis by (simp add: settled_def)
qed

lemma unregisterJob_settled:
  assumes c: "core w" and t: "tracked X w" and jr: "j \<in> set (runningJobs w)"
    and r: "unregisterJob w j = Inr w'"
  shows "settled w' cn"
proof -
  from remove_core[OF c jr] obtain w1 where
    w1: "removeJobFromChannel (w\<lparr> runningJobs := remove1 j (runningJobs w) \<rparr>)
           (channel (jobs w j)) j = Inr w1" "core w1" "jobs w1 = jobs w" "promise w1 = promise w"
       "timers w1 = timers w" "set (runningJobs w1) = set (runningJobs w) - {j}" by blast
  have t1: "tracked (insert j X) w1"
    using t w1(3,4,5,6) unfolding tracked_def by auto
  from r jr w1(1) have "tryToUnstallChannels w1 = Inr w'" by (simp add: unregisterJob_def)
  from tryToUnstall_settled[OF w1(2) t1 this] show ?thesis .
qed

section \<open>Result classification\<close>

text \<open>
  C6. The result is computed once, in the second callback, as \<open>failure\<close> when the error
  list is not empty, else \<open>partial\<close> when the warning list is not empty, else \<open>success\<close>;
  an executor that throws or rejects is to end as \<open>failure\<close>. The second callback records
  the executor's exception only under \<open>if (executorError)\<close>, so an executor whose
  promise rejects with a value that JavaScript treats as false (\<open>Promise.reject()\<close>,
  \<open>throw null\<close>) leaves the error list empty: the job below has run its executor, the
  executor has rejected, and the job ends with no error and the result \<open>success\<close>.
\<close>

theorem falsy_rejection_classified_success:
  "(case run initial
      [RunTask ''T'' 0 100 \<lparr>optChannel = None, optSilent = None\<rparr>,
       StartJobResolved 0 7 None, WorkSettled 0 (Some FalsyValue), Conclude 0,
       FinishJobSettled 0] of
      None \<Rightarrow> False
    | Some w \<Rightarrow> 0 \<in> set (calls w) \<and> errors (jobs w 0) = [] \<and> status (jobs w 0) = Finished \<and>
        result (jobs w 0) = Success)"
  by (simp add: model_defs)

section \<open>Deduplication in runTask\<close>








section \<open>Unique task names\<close>

text \<open>
  C1, as stated: at most one job of a name in the running set and all queues together.
  It fails: \<open>runTask\<close> looks for the name in the running set and in the queue of the
  channel it is given, nowhere else. Below, job 1 (\<open>T\<close>) waits in the queue of channel
  \<open>x\<close> behind job 0, and a call without channel starts job 2, also \<open>T\<close>.
\<close>

theorem queued_and_running_counterexample:
  "(case run initial
      [RunTask ''A'' 0 100 \<lparr>optChannel = Some ''x'', optSilent = None\<rparr>,
       RunTask ''T'' 0 100 \<lparr>optChannel = Some ''x'', optSilent = None\<rparr>,
       RunTask ''T'' 0 100 \<lparr>optChannel = None, optSilent = None\<rparr>] of
      None \<Rightarrow> False
    | Some w \<Rightarrow> runningJobs w = [0, 2] \<and>
        map_of (channels w) ''x'' = Some \<lparr>name = ''x'', runningJob = Some 0, queue = [1]\<rparr> \<and>
        taskName (jobs w 1) = ''T'' \<and> taskName (jobs w 2) = ''T'')"
  by (simp add: model_defs)

text \<open>
  C1, amended: in every reachable state at most one job of a name is in the running set,
  and at most one job of a name is in the queue of any one channel; and \<open>runTask\<close>
  creates no job (it leaves the state as it is) when the name is running or is queued in
  the channel it is given.
\<close>

theorem unique_names:
  assumes "reachable w"
  shows "distinct (map (nameOf w) (runningJobs w)) \<and>
         (\<forall>cn ch. map_of (channels w) cn = Some ch \<longrightarrow> distinct (map (nameOf w) (queue ch))) \<and>
         (\<forall>tn ex tmo options j w'.
            runTask w tn ex tmo options = Inr (j, w') \<and>
            (tn \<in> nameOf w ` set (runningJobs w) \<or>
             (\<exists>cn ch. optChannel options = Some cn \<and> map_of (channels w) cn = Some ch \<and>
                tn \<in> nameOf w ` set (queue ch))) \<longrightarrow>
            w' = w)"
proof (intro conjI allI impI)
  note i = reachable_inv[OF assms]
  from i show "distinct (map (nameOf w) (runningJobs w))"
    by (simp add: inv_def core_def runInv_def)
  fix cn ch assume "map_of (channels w) cn = Some ch"
  with i show "distinct (map (nameOf w) (queue ch))"
    by (auto simp: inv_def core_def chanInv_def chanOK_def)
next
  fix tn ex tmo options j w'
  assume a: "runTask w tn ex tmo options = Inr (j, w') \<and>
            (tn \<in> nameOf w ` set (runningJobs w) \<or>
             (\<exists>cn ch. optChannel options = Some cn \<and> map_of (channels w) cn = Some ch \<and>
                tn \<in> nameOf w ` set (queue ch)))"
  show "w' = w"
  proof (cases "findRunningJob w tn")
    case (Some k)
    with a show ?thesis by (simp add: runTask_def)
  next
    case None
    then have "tn \<notin> nameOf w ` set (runningJobs w)"
      by (simp add: findRunningJob_def findWhere_None)
    with a obtain cn ch where c: "optChannel options = Some cn" "map_of (channels w) cn = Some ch"
      "tn \<in> nameOf w ` set (queue ch)" by blast
    then obtain k where "findWhere w (queue ch) tn = Some k"
      by (cases "findWhere w (queue ch) tn") (auto simp: findWhere_None)
    with a None c show ?thesis
      by (simp add: runTask_def findQueuedTaskInChannel_def getChannel_def)
  qed
qed

theorem unique_names_witness:
  "(case run initial
      [RunTask ''A'' 0 100 \<lparr>optChannel = Some ''x'', optSilent = None\<rparr>,
       RunTask ''T'' 0 100 \<lparr>optChannel = Some ''x'', optSilent = None\<rparr>,
       RunTask ''T'' 0 100 \<lparr>optChannel = None, optSilent = None\<rparr>] of
      None \<Rightarrow> False
    | Some w \<Rightarrow> reachable w \<and> runningJobs w = [0, 2] \<and>
        distinct (map (nameOf w) (runningJobs w)) \<and>
        (\<exists>w'. runTask w ''T'' 0 100 \<lparr>optChannel = Some ''x'', optSilent = None\<rparr> = Inr (2, w') \<and>
           w' = w))"
proof -
  let ?evs = "[RunTask ''A'' 0 100 \<lparr>optChannel = Some ''x'', optSilent = None\<rparr>,
       RunTask ''T'' 0 100 \<lparr>optChannel = Some ''x'', optSilent = None\<rparr>,
       RunTask ''T'' 0 100 \<lparr>optChannel = None, optSilent = None\<rparr>]"
  have "run initial ?evs \<noteq> None" by (simp add: model_defs)
  then obtain w where w: "run initial ?evs = Some w" by blast
  have re: "reachable w" by (rule run_reachable[OF reachable_initial w])
  have f: "runningJobs w = [0, 2]" "nameOf w 2 = ''T''" "nameOf w 0 = ''A''"
    using w by (auto simp: model_defs)
  from runTask_inv[OF reachable_inv[OF re], of "''T''" 0 100
      "\<lparr>optChannel = Some ''x'', optSilent = None\<rparr>"]
  obtain j w' where r: "runTask w ''T'' 0 100 \<lparr>optChannel = Some ''x'', optSilent = None\<rparr> = Inr (j, w')"
    by blast
  have "''T'' \<in> nameOf w ` set (runningJobs w)" using f by force
  with unique_names[OF re] r have u: "distinct (map (nameOf w) (runningJobs w))" "w' = w"
    by blast+
  from r u(2) f have "j = 2" by (simp add: runTask_def findRunningJob_def findWhere_def)
  with w re f u r show ?thesis by simp
qed

section \<open>Status and the running set\<close>

text \<open>
  C8, as stated: never two jobs of one name with status \<open>running\<close>, the time after a
  timeout included. It fails there: the timeout takes job 0 out of the running set and
  leaves its status alone, its executor being still at work; a second \<open>runTask\<close> then
  starts job 1 under the same name.
\<close>

theorem two_running_after_timeout_counterexample:
  "(case run initial
      [RunTask ''T'' 0 100 \<lparr>optChannel = None, optSilent = None\<rparr>,
       StartJobResolved 0 7 None, TimerFires 0,
       RunTask ''T'' 0 100 \<lparr>optChannel = None, optSilent = None\<rparr>,
       StartJobResolved 1 8 None] of
      None \<Rightarrow> False
    | Some w \<Rightarrow> taskName (jobs w 0) = ''T'' \<and> taskName (jobs w 1) = ''T'' \<and>
        status (jobs w 0) = Running \<and> status (jobs w 1) = Running \<and>
        timedOut (jobs w 0) \<and> promise w 0 = PendingWork \<and> runningJobs w = [1])"
  by (simp add: model_defs)

text \<open>
  C8, amended: in every reachable state, two jobs of one name that both have status
  \<open>running\<close> and have not timed out are the same job.
\<close>

theorem one_running_per_name:
  assumes "reachable w"
    and "status (jobs w j) = Running" "\<not> timedOut (jobs w j)"
    and "status (jobs w k) = Running" "\<not> timedOut (jobs w k)"
    and "taskName (jobs w j) = taskName (jobs w k)"
  shows "j = k"
proof -
  note i = reachable_inv[OF assms(1)]
  from invD_job(1)[OF i, of j] assms(2) have "active (promise w j)" by (simp add: jobOK_def)
  with invD_job(2)[OF i] assms(3) have j: "j \<in> set (runningJobs w)" by blast
  from invD_job(1)[OF i, of k] assms(4) have "active (promise w k)" by (simp add: jobOK_def)
  with invD_job(2)[OF i] assms(5) have k: "k \<in> set (runningJobs w)" by blast
  from i have "distinct (map (nameOf w) (runningJobs w))"
    by (simp add: inv_def core_def runInv_def)
  from distinct_map_eq[OF this j k] assms(6) show ?thesis by (simp add: nameOf_def)
qed

theorem one_running_per_name_witness:
  "(case run initial
      [RunTask ''T'' 0 100 \<lparr>optChannel = None, optSilent = None\<rparr>,
       StartJobResolved 0 7 None,
       RunTask ''T'' 0 100 \<lparr>optChannel = None, optSilent = None\<rparr>] of
      None \<Rightarrow> False
    | Some w \<Rightarrow> reachable w \<and> status (jobs w 0) = Running \<and> \<not> timedOut (jobs w 0) \<and>
        nextExecutionId w = 1 \<and> (0::nat) = 0)"
proof -
  let ?evs = "[RunTask ''T'' 0 100 \<lparr>optChannel = None, optSilent = None\<rparr>,
       StartJobResolved 0 7 None,
       RunTask ''T'' 0 100 \<lparr>optChannel = None, optSilent = None\<rparr>]"
  have "run initial ?evs \<noteq> None" by (simp add: model_defs)
  then obtain w where w: "run initial ?evs = Some w" by blast
  have re: "reachable w" by (rule run_reachable[OF reachable_initial w])
  have f: "status (jobs w 0) = Running" "\<not> timedOut (jobs w 0)" "nextExecutionId w = 1"
    using w by (auto simp: model_defs)
  from one_running_per_name[OF re f(1,2) f(1,2)] have "(0::nat) = 0" by simp
  with w re f show ?thesis by simp
qed

text \<open>
  C9, as stated: \<open>getRunningJobs\<close> returns exactly the jobs with status \<open>running\<close>. It
  fails both ways. The status turns \<open>running\<close> only in the first callback, after
  \<open>startJob\<close> has resolved, so job 1 below is in the list with status \<open>queued\<close>; and a
  timeout leaves the status alone, so job 0 has status \<open>running\<close> and is not in the list.
\<close>

theorem getRunningJobs_counterexample:
  "(case run initial
      [RunTask ''T'' 0 100 \<lparr>optChannel = None, optSilent = None\<rparr>,
       StartJobResolved 0 7 None, TimerFires 0,
       RunTask ''T'' 0 100 \<lparr>optChannel = None, optSilent = None\<rparr>] of
      None \<Rightarrow> False
    | Some w \<Rightarrow> getRunningJobs w = [1] \<and> status (jobs w 1) = Queued \<and>
        status (jobs w 0) = Running)"
  by (simp add: model_defs getRunningJobs_def)

text \<open>
  C9, amended: \<open>getRunningJobs\<close> returns the running set. In every reachable state each
  job of the list has been handed to \<open>_executeJob\<close>, has not finished and has not timed
  out (its status is \<open>queued\<close> or \<open>running\<close>); and every job with status \<open>running\<close> that
  has not timed out is in the list.
\<close>

theorem getRunningJobs_sound:
  assumes "reachable w"
  shows "(\<forall>j\<in>set (getRunningJobs w).
            active (promise w j) \<and> status (jobs w j) \<noteq> Finished \<and> \<not> timedOut (jobs w j)) \<and>
         (\<forall>j. status (jobs w j) = Running \<and> \<not> timedOut (jobs w j) \<longrightarrow>
            j \<in> set (getRunningJobs w))"
proof (intro conjI ballI allI impI)
  note i = reachable_inv[OF assms]
  fix j assume "j \<in> set (getRunningJobs w)"
  then have j: "j \<in> set (runningJobs w)" by (simp add: getRunningJobs_def)
  from invD_job(3)[OF i j] show "active (promise w j)" "\<not> timedOut (jobs w j)" by simp_all
  with invD_job(1)[OF i, of j] show "status (jobs w j) \<noteq> Finished"
    by (auto simp: jobOK_def active_def)
next
  note i = reachable_inv[OF assms]
  fix j assume a: "status (jobs w j) = Running \<and> \<not> timedOut (jobs w j)"
  with invD_job(1)[OF i, of j] have "active (promise w j)" by (simp add: jobOK_def)
  with invD_job(2)[OF i] a show "j \<in> set (getRunningJobs w)" by (simp add: getRunningJobs_def)
qed

theorem getRunningJobs_sound_witness:
  "(case run initial
      [RunTask ''T'' 0 100 \<lparr>optChannel = None, optSilent = None\<rparr>,
       StartJobResolved 0 7 None,
       RunTask ''U'' 0 100 \<lparr>optChannel = None, optSilent = None\<rparr>] of
      None \<Rightarrow> False
    | Some w \<Rightarrow> reachable w \<and> getRunningJobs w = [0, 1] \<and>
        status (jobs w 0) = Running \<and> \<not> timedOut (jobs w 0) \<and> active (promise w 1) \<and>
        status (jobs w 1) \<noteq> Finished)"
proof -
  let ?evs = "[RunTask ''T'' 0 100 \<lparr>optChannel = None, optSilent = None\<rparr>,
       StartJobResolved 0 7 None,
       RunTask ''U'' 0 100 \<lparr>optChannel = None, optSilent = None\<rparr>]"
  have "run initial ?evs \<noteq> None" by (simp add: model_defs)
  then obtain w where w: "run initial ?evs = Some w" by blast
  have re: "reachable w" by (rule run_reachable[OF reachable_initial w])
  have f: "getRunningJobs w = [0, 1]" "status (jobs w 0) = Running" "\<not> timedOut (jobs w 0)"
    using w by (auto simp: model_defs getRunningJobs_def)
  from getRunningJobs_sound[OF re] f(1)
  have "active (promise w 1) \<and> status (jobs w 1) \<noteq> Finished" by simp
  with w re f show ?thesis by simp
qed

section \<open>The fatal branches\<close>

text \<open>
  C10. The four \<open>throw\<close> statements of the scheduler (\<open>Job already executed\<close>,
  \<open>Task already running\<close>, \<open>Orphaned job detected\<close>, \<open>Cannot remove job\<close>) are the
  \<open>Inl\<close> results of the model, and they are not to be reached when the scheduler is
  driven through \<open>runTask\<close> alone. One of them is. An executor whose promise rejects
  with a truthy value that has neither a message nor a \<open>toString\<close> makes the second
  callback throw where it computes the error text, before it clears the timer; the
  last callback unregisters the job; and the timer, still armed, then calls
  \<open>_timeoutJob\<close> for a job that is no longer in the running set.
\<close>

theorem orphaned_job_reached:
  "(case run initial
      [RunTask ''T'' 0 100 \<lparr>optChannel = None, optSilent = None\<rparr>,
       StartJobResolved 0 7 None, WorkSettled 0 (Some OpaqueValue), Conclude 0,
       FinishJobSettled 0] of
      None \<Rightarrow> False
    | Some w \<Rightarrow> runningJobs w = [] \<and> status (jobs w 0) = Finished \<and>
        enabled w (TimerFires 0) \<and> step w (TimerFires 0) = Inl OrphanedJob)"
  by (simp add: model_defs)

section \<open>Promotion within a channel\<close>

lemma tryRunNext_other:
  assumes "tryRunNextJobInChannel w cn = Inr w'" "c \<noteq> cn"
  shows "map_of (channels w') c = map_of (channels w) c"
  using tryRunNext_cases[OF assms(1)] assms(2) by auto

lemma tryRunNext_busy:
  assumes "tryRunNextJobInChannel w cn = Inr w'" "map_of (channels w) c = Some ch"
    "runningJob ch \<noteq> None"
  shows "map_of (channels w') c = Some ch"
proof (cases "c = cn")
  case True
  with assms have "w' = w" by (auto simp: tryRunNextJobInChannel_def)
  with assms(2) show ?thesis by simp
next
  case False
  from tryRunNext_other[OF assms(1) False] assms(2) show ?thesis by simp
qed

lemma unstallLoop_busy:
  assumes "unstallLoop cns w = Inr w'" "map_of (channels w) c = Some ch" "runningJob ch \<noteq> None"
  shows "map_of (channels w') c = Some ch"
  using assms
proof (induction cns arbitrary: w)
  case Nil
  then show ?case by simp
next
  case (Cons cn cns)
  from Cons.prems(1) obtain w1 where
    w1: "tryRunNextJobInChannel w cn = Inr w1" "unstallLoop cns w1 = Inr w'"
    by (auto split: sum.splits)
  from tryRunNext_busy[OF w1(1) Cons.prems(2,3)] have "map_of (channels w1) c = Some ch" .
  from Cons.IH[OF w1(2) this Cons.prems(3)] show ?case .
qed

lemma unstallLoop_other:
  assumes "unstallLoop cns w = Inr w'" "c \<notin> set cns"
  shows "map_of (channels w') c = map_of (channels w) c"
  using assms
proof (induction cns arbitrary: w)
  case Nil
  then show ?case by simp
next
  case (Cons cn cns)
  from Cons.prems(1) obtain w1 where
    w1: "tryRunNextJobInChannel w cn = Inr w1" "unstallLoop cns w1 = Inr w'"
    by (auto split: sum.splits)
  from tryRunNext_other[OF w1(1), of c] Cons.prems(2)
  have "map_of (channels w1) c = map_of (channels w) c" by simp
  with Cons.IH[OF w1(2)] Cons.prems(2) show ?case by simp
qed

lemma grows_isRunning:
  assumes "grows w w'" "isRunning w tn"
  shows "isRunning w' tn"
proof -
  from assms(1) have "jobs w' = jobs w" "set (runningJobs w) \<subseteq> set (runningJobs w')"
    by (simp_all add: grows_def)
  then show ?thesis using assms(2) by (auto simp: isRunning_iff nameOf_def)
qed

lemma grows_nameOf: "grows w w' \<Longrightarrow> nameOf w' = nameOf w"
  by (simp add: grows_def nameOf_def fun_eq_iff)

text \<open>
  A job that a promotion pass starts in a channel overtakes only blocked jobs: a job
  with a smaller execution id that the pass leaves in the queue of that channel is
  blocked by a running job of its name.
\<close>

lemma unstallLoop_overtakes:
  assumes "core w" "tracked X w" "unstallLoop cns w = Inr w'"
    and "map_of (channels w') c = Some ch'" "runningJob ch' = Some b"
    and "b \<notin> set (runningJobs w)" "a \<in> set (queue ch')" "a < b"
  shows "isRunning w' (nameOf w' a)"
  using assms
proof (induction cns arbitrary: w)
  case Nil
  then have "chanOK w c ch'" by (simp add: core_def chanInv_def)
  from chanOK_slotD(1)[OF this Nil.prems(5)] Nil.prems(3,6) show ?case by simp
next
  case (Cons cn cns)
  from Cons.prems(3) obtain w1 where
    w1: "tryRunNextJobInChannel w cn = Inr w1" "unstallLoop cns w1 = Inr w'"
    by (auto split: sum.splits)
  from tryRunNext_inv[OF Cons.prems(1,2), of cn] w1(1) have
    c1: "core w1" and t1: "tracked X w1" and g1: "grows w w1" by auto
  from unstallLoop_inv[OF c1 t1, of cns] w1(2) have
    c': "core w'" and g': "grows w1 w'" by auto
  show ?case
  proof (cases "b \<in> set (runningJobs w1)")
    case False
    from Cons.IH[OF c1 t1 w1(2) Cons.prems(4,5) False Cons.prems(7,8)] show ?thesis .
  next
    case True
    from tryRunNext_cases[OF w1(1)] True Cons.prems(6) obtain ch pre k post where
      p: "map_of (channels w) cn = Some ch" "queue ch = pre @ k # post"
        "\<forall>x\<in>set pre. isRunning w (nameOf w x)"
        "w1 = (setChannel cn (ch\<lparr> queue := pre @ post, runningJob := Some k \<rparr>) w)
               \<lparr> runningJobs := runningJobs w @ [k],
                 promise := (promise w)(k := PendingStart),
                 sink := sink w @ [StartJob (nameOf w k)] \<rparr>"
      by auto
    from True Cons.prems(6) p(4) have bk: "b = k" by auto
    have e1: "map_of (channels w1) cn = Some (ch\<lparr> queue := pre @ post, runningJob := Some k \<rparr>)"
      by (simp add: p(4))
    from unstallLoop_busy[OF w1(2) e1] have
      e': "map_of (channels w') cn = Some (ch\<lparr> queue := pre @ post, runningJob := Some k \<rparr>)"
      by simp
    from c1 e1 have "chanOK w1 cn (ch\<lparr> queue := pre @ post, runningJob := Some k \<rparr>)"
      by (simp add: core_def chanInv_def)
    from chanOK_slotD(2)[OF this] have "channel (jobs w1 k) = Some cn" by simp
    moreover from c' Cons.prems(4) have "chanOK w' c ch'" by (simp add: core_def chanInv_def)
    from chanOK_slotD(2)[OF this Cons.prems(5)] have "channel (jobs w' b) = Some c" .
    moreover from g' have "jobs w' = jobs w1" by (simp add: grows_def)
    ultimately have "c = cn" using bk by simp
    with e' Cons.prems(4) have ch': "ch' = ch\<lparr> queue := pre @ post, runningJob := Some k \<rparr>"
      by simp
    from Cons.prems(1) p(1) have "sorted_wrt (<) (queue ch)"
      by (auto simp: core_def chanInv_def chanOK_def)
    with p(2) have "\<forall>x\<in>set post. k < x" by (simp add: sorted_wrt_append)
    with Cons.prems(7,8) ch' bk have "a \<in> set pre" by auto
    with p(3) have "isRunning w (nameOf w a)" by blast
    from grows_isRunning[OF g' grows_isRunning[OF g1 this]]
    show ?thesis by (simp add: grows_nameOf[OF g'] grows_nameOf[OF g1])
  qed
qed

lemma tryRunNext_settled_noop:
  "settled w cn \<Longrightarrow> tryRunNextJobInChannel w cn = Inr w"
  by (auto simp: settled_def tryRunNextJobInChannel_def scanQueue_None[THEN iffD2]
      split: option.splits)

lemma unstallLoop_settled_noop:
  "(\<And>c. settled w c) \<Longrightarrow> unstallLoop cns w = Inr w"
  by (induction cns) (simp_all add: tryRunNext_settled_noop)

lemma unregisterJob_overtakes:
  assumes c: "core w" and t: "tracked X w" and jr: "j \<in> set (runningJobs w)"
    and r: "unregisterJob w j = Inr w'"
    and s: "map_of (channels w') c = Some ch'" "runningJob ch' = Some b"
      "b \<notin> set (runningJobs w)" "a \<in> set (queue ch')" "a < b"
  shows "isRunning w' (nameOf w' a)"
proof -
  from remove_core[OF c jr] obtain w1 where
    w1: "removeJobFromChannel (w\<lparr> runningJobs := remove1 j (runningJobs w) \<rparr>)
           (channel (jobs w j)) j = Inr w1" "core w1" "jobs w1 = jobs w" "promise w1 = promise w"
       "timers w1 = timers w" "set (runningJobs w1) = set (runningJobs w) - {j}" by blast
  have t1: "tracked (insert j X) w1"
    using t w1(3,4,5,6) unfolding tracked_def by auto
  from r jr w1(1) have u: "unstallLoop (map fst (channels w1)) w1 = Inr w'"
    by (simp add: unregisterJob_def tryToUnstallChannels_def)
  from s(3) w1(6) have "b \<notin> set (runningJobs w1)" by simp
  from unstallLoop_overtakes[OF w1(2) t1 u s(1,2) this s(4,5)] show ?thesis .
qed

lemma enqueueNew_core:
  assumes i: "inv w" and nr: "findRunningJob w tn = None"
    and ch: "map_of (channels w) cn = Some ch" and nq: "findWhere w (queue ch) tn = None"
  shows "core (setChannel cn (ch\<lparr> queue := queue ch @ [nextExecutionId w] \<rparr>)
           (w\<lparr> jobs := (jobs w)(nextExecutionId w := newJobImpl (nextExecutionId w) tn ex tmo (Some cn) sil),
               nextExecutionId := nextExecutionId w + 1 \<rparr>)) \<and>
         tracked {} (setChannel cn (ch\<lparr> queue := queue ch @ [nextExecutionId w] \<rparr>)
           (w\<lparr> jobs := (jobs w)(nextExecutionId w := newJobImpl (nextExecutionId w) tn ex tmo (Some cn) sil),
               nextExecutionId := nextExecutionId w + 1 \<rparr>))" (is "core ?w2 \<and> _")
proof -
  let ?n = "nextExecutionId w"
  let ?w1 = "w\<lparr> jobs := (jobs w)(?n := newJobImpl ?n tn ex tmo (Some cn) sil),
               nextExecutionId := ?n + 1 \<rparr>"
  from i have c: "core w" and t: "tracked {} w" by (simp_all add: inv_def)
  have c1: "core ?w1" by (rule allocate_core[OF c]) (simp_all add: newJobImpl_def)
  have t1: "tracked {} ?w1" by (rule allocate_tracked[OF c t]) (simp add: newJobImpl_def)
  have pn: "promise w ?n = NotStarted"
    using invD_job(1)[OF i, of ?n] by (simp add: jobOK_def)
  have old: "k < ?n \<Longrightarrow> nameOf ?w1 k = nameOf w k" for k by (simp add: nameOf_def)
  have nm: "nameOf ?w1 ?n = tn" by (simp add: nameOf_def newJobImpl_def)
  have ch1: "map_of (channels ?w1) cn = Some ch" using ch by simp
  from c ch have qlt: "k \<in> set (queue ch) \<Longrightarrow> k < ?n" for k
    by (auto simp: core_def chanInv_def chanOK_def)
  have "core ?w2"
  proof (rule enqueue_core[OF c1 ch1])
    show "nameOf ?w1 ?n \<notin> nameOf ?w1 ` set (queue ch)"
      using nq qlt old nm by (fastforce simp: findWhere_None)
  qed (use pn qlt in \<open>simp_all add: newJobImpl_def\<close>)
  moreover have "tracked {} ?w2" using t1 by (simp add: setChannel_tracked)
  ultimately show ?thesis by simp
qed

lemma slot_running:
  assumes "inv w" "map_of (channels w) c = Some q" "runningJob q = Some b"
  shows "b \<in> set (runningJobs w)"
proof -
  from assms(1,2) have "chanOK w c q" by (simp add: inv_def core_def chanInv_def)
  from chanOK_slotD(1)[OF this assms(3)] show ?thesis .
qed

lemma runTask_overtakes:
  assumes i: "inv w" and r: "runTask w tn ex tmo options = Inr (j, w')"
    and s: "map_of (channels w') c = Some q" "runningJob q = Some b"
      "b \<notin> set (runningJobs w)" "a \<in> set (queue q)" "a < b"
  shows "isRunning w' (nameOf w' a)"
proof -
  have same: False if "channels w' = channels w"
    using slot_running[OF i, of c q b] s(1,2,3) that by simp
  have viaQueue: ?thesis
    if i0: "inv w0" and rj: "runningJobs w0 = runningJobs w"
      and nr0: "findRunningJob w0 tn = None" and oc: "optChannel options = Some cn"
      and ch0: "map_of (channels w0) cn = Some ch" and nq0: "findWhere w0 (queue ch) tn = None"
      and cr: "createAndRunJob w0 tn ex tmo options = Inr (j, w')" for w0 cn ch
  proof -
    let ?sil = "case optSilent options of Some b \<Rightarrow> b | None \<Rightarrow> False"
    let ?w2 = "setChannel cn (ch\<lparr> queue := queue ch @ [nextExecutionId w0] \<rparr>)
           (w0\<lparr> jobs := (jobs w0)(nextExecutionId w0 :=
                   newJobImpl (nextExecutionId w0) tn ex tmo (Some cn) ?sil),
               nextExecutionId := nextExecutionId w0 + 1 \<rparr>)"
    from enqueueNew_core[OF i0 nr0 ch0 nq0, of ex tmo ?sil]
    have e: "core ?w2" "tracked {} ?w2" by simp_all
    from cr oc ch0 have "tryRunNextJobInChannel ?w2 cn = Inr w'"
      by (auto simp: createAndRunJob_def getChannel_def queueJobToChannel_def Let_def
          split: sum.splits)
    then have u: "unstallLoop [cn] ?w2 = Inr w'" by simp
    have "b \<notin> set (runningJobs ?w2)" using s(3) rj by simp
    from unstallLoop_overtakes[OF e u s(1,2) this s(4,5)] show ?thesis .
  qed
  show ?thesis
  proof (cases "findRunningJob w tn")
    case (Some k)
    with r have "w' = w" by (simp add: runTask_def)
    with same show ?thesis by simp
  next
    case None
    show ?thesis
    proof (cases "optChannel options")
      case nc: None
      with r None have "createAndRunJob w tn ex tmo options = Inr (j, w')"
        by (simp add: runTask_def findQueuedTaskInChannel_def)
      with nc have "channels w' = channels w"
        by (auto simp: createAndRunJob_def executeJob_def Let_def split: if_splits)
      with same show ?thesis by simp
    next
      case (Some cn)
      note oc = this
      show ?thesis
      proof (cases "map_of (channels w) cn")
        case (Some ch)
        note ch = this
        show ?thesis
        proof (cases "findWhere w (queue ch) tn")
          case (Some k)
          with r None oc ch have "w' = w"
            by (simp add: runTask_def findQueuedTaskInChannel_def getChannel_def)
          with same show ?thesis by simp
        next
          case nq: None
          from r None oc ch nq have cr: "createAndRunJob w tn ex tmo options = Inr (j, w')"
            by (simp add: runTask_def findQueuedTaskInChannel_def getChannel_def)
          from viaQueue[OF i _ None oc ch nq cr] show ?thesis by simp
        qed
      next
        case nch: None
        let ?w0 = "setChannel cn (newJobChannel cn) w"
        from i have i0: "inv ?w0"
          by (simp add: inv_def addChannel_core[OF _ nch] setChannel_tracked)
        have nr0: "findRunningJob ?w0 tn = None" using None by simp
        have ch0: "map_of (channels ?w0) cn = Some (newJobChannel cn)" by simp
        have nq0: "findWhere ?w0 (queue (newJobChannel cn)) tn = None"
          by (simp add: newJobChannel_def findWhere_def)
        from r None oc nch have cr: "createAndRunJob ?w0 tn ex tmo options = Inr (j, w')"
          by (simp add: runTask_def findQueuedTaskInChannel_def getChannel_def
              newJobChannel_def findWhere_def)
        from viaQueue[OF i0 _ nr0 oc ch0 nq0 cr] show ?thesis by simp
      qed
    qed
  qed
qed

lemma step_overtakes:
  assumes i: "inv w" and en: "enabled w e" and st: "step w e = Inr w'"
    and s: "map_of (channels w') c = Some q" "runningJob q = Some b"
      "b \<notin> set (runningJobs w)" "a \<in> set (queue q)" "a < b"
  shows "isRunning w' (nameOf w' a)"
proof -
  from i have co: "core w" and t: "tracked {} w" by (simp_all add: inv_def)
  have same: False if "channels w' = channels w"
    using slot_running[OF i, of c q b] s(1,2,3) that by simp
  show ?thesis
  proof (cases e)
    case (RunTask tn ex tmo options)
    with st obtain j where "runTask w tn ex tmo options = Inr (j, w')"
      by (auto split: sum.splits)
    from runTask_overtakes[OF i this s] show ?thesis .
  next
    case (StartJobResolved j jobId sync)
    with st have "channels w' = channels w"
      by (auto simp: startResolved_def updJob_def Let_def split: option.splits)
    with same show ?thesis by simp
  next
    case (StartJobRejected j x)
    with st have "channels w' = channels w" by (auto simp: startRejected_def)
    with same show ?thesis by simp
  next
    case (WorkSettled j r)
    with st have "channels w' = channels w" by (auto simp: workSettled_def)
    with same show ?thesis by simp
  next
    case (Conclude j)
    with st have "channels w' = channels w"
      by (auto simp: conclude_frame split: phase.splits)
    with same show ?thesis by simp
  next
    case (JobWarning j m)
    with st have "channels w' = channels w" by (auto simp: updJob_def)
    with same show ?thesis by simp
  next
    case (JobError j m)
    with st have "channels w' = channels w" by (auto simp: updJob_def)
    with same show ?thesis by simp
  next
    case (TimerFires j)
    with st obtain w0 where u: "unregisterJob w j = Inr w0"
      and w': "w' = (updJob j (\<lambda>J. J\<lparr> timedOut := True \<rparr>) w0)
                 \<lparr> timers := removeAll j (timers (updJob j (\<lambda>J. J\<lparr> timedOut := True \<rparr>) w0)) \<rparr>"
      by (auto simp: timeoutJob_def split: sum.splits)
    from u have jr: "j \<in> set (runningJobs w)"
      by (cases "j \<in> set (runningJobs w)") (auto simp: unregisterJob_def)
    have e: "channels w' = channels w0" "runningJobs w' = runningJobs w0" "nameOf w' = nameOf w0"
      by (auto simp: w' updJob_def nameOf_def fun_eq_iff)
    from unregisterJob_overtakes[OF co t jr u, of c q b a] s e
    show ?thesis by (simp add: isRunning_iff)
  next
    case (FinishJobSettled j)
    with en obtain r where p: "promise w j = PendingFinishLog r" by (auto split: phase.splits)
    show ?thesis
    proof (cases "timedOut (jobs w j)")
      case True
      with st FinishJobSettled p have "channels w' = channels w"
        by (auto simp: finishSettled_def updJob_def)
      with same show ?thesis by simp
    next
      case False
      with invD_job(2)[OF i, of j] p have jr: "j \<in> set (runningJobs w)"
        by (simp add: active_def)
      from unregisterJob_inv[OF co t jr] obtain w0 where
        w0: "unregisterJob w j = Inr w0" "core w0" "tracked {j} w0" by auto
      have "settled w0 x" for x by (rule unregisterJob_settled[OF co t jr w0(1)])
      then have "tryToUnstallChannels w0 = Inr w0"
        unfolding tryToUnstallChannels_def by (rule unstallLoop_settled_noop)
      with st FinishJobSettled p False w0(1) have
        w': "w' = (updJob j (setStatus Finished r) w0)\<lparr> promise := (promise w0)(j := Done) \<rparr>"
        by (simp add: finishSettled_def)
      have e: "channels w' = channels w0" "runningJobs w' = runningJobs w0" "nameOf w' = nameOf w0"
        by (auto simp: w' updJob_def setStatus_def nameOf_def fun_eq_iff)
      from unregisterJob_overtakes[OF co t jr w0(1), of c q b a] s e
      show ?thesis by (simp add: isRunning_iff)
    qed
  qed
qed

text \<open>
  C3. For a channel with no running job, \<open>_tryRunNextJobInChannel\<close> leaves the state as
  it is when every job of the queue is blocked by a running job of its name; otherwise it
  takes the first job \<open>k\<close> of the queue that is not blocked out of the queue, puts it in
  the slot of the channel and executes it (the job joins the running set and its
  \<open>startJob\<close> is issued), and the jobs before it (all blocked, skipped) and after it
  stay in the queue in their order. (The job found has status \<open>queued\<close> in every state
  the scheduler calls the method in, by \<open>chanInv\<close>; with another status \<open>_executeJob\<close>
  throws.) New jobs join a queue at its end.

  Over runs: a job gets its execution id and joins its queue in one call of \<open>runTask\<close>,
  and ids grow, so in one channel \<open>a < b\<close> says that \<open>a\<close> was queued before \<open>b\<close>. In every
  reachable state \<open>v\<close> each queue stands in that order. And whenever a step from \<open>v\<close>
  starts a job \<open>b\<close> of a channel (\<open>b\<close> is in the slot afterwards and was not running
  before) while a job \<open>a\<close> queued before it is left in the queue of the channel, \<open>a\<close> is
  blocked by a running job of its name: it was skipped. So among the jobs of a channel
  that are never skipped, the order of execution is the order of queueing.
\<close>

theorem promotion_fifo_with_skipping:
  assumes "map_of (channels w) cn = Some ch" and "runningJob ch = None" and "reachable v"
  shows "((\<forall>k\<in>set (queue ch). isRunning w (nameOf w k)) \<longrightarrow>
            tryRunNextJobInChannel w cn = Inr w) \<and>
         (\<forall>pre k post.
            queue ch = pre @ k # post \<and> (\<forall>x\<in>set pre. isRunning w (nameOf w x)) \<and>
            \<not> isRunning w (nameOf w k) \<and> status (jobs w k) = Queued \<longrightarrow>
            tryRunNextJobInChannel w cn =
              Inr ((setChannel cn (ch\<lparr> queue := pre @ post, runningJob := Some k \<rparr>) w)
                     \<lparr> runningJobs := runningJobs w @ [k],
                       promise := (promise w)(k := PendingStart),
                       sink := sink w @ [StartJob (nameOf w k)] \<rparr>)) \<and>
         (\<forall>j. queueJobToChannel w j cn ch =
            tryRunNextJobInChannel (setChannel cn (ch\<lparr> queue := queue ch @ [j] \<rparr>) w) cn) \<and>
         (\<forall>c q. map_of (channels v) c = Some q \<longrightarrow> sorted_wrt (<) (queue q)) \<and>
         (\<forall>e v' c q a b.
            enabled v e \<and> step v e = Inr v' \<and> map_of (channels v') c = Some q \<and>
            runningJob q = Some b \<and> b \<notin> set (runningJobs v) \<and> a \<in> set (queue q) \<and> a < b \<longrightarrow>
            isRunning v' (nameOf v' a))"
proof (intro conjI allI impI)
  assume "\<forall>k\<in>set (queue ch). isRunning w (nameOf w k)"
  then have "scanQueue (\<lambda>j. isRunning w (nameOf w j)) (queue ch) = None"
    by (simp add: scanQueue_None)
  with assms show "tryRunNextJobInChannel w cn = Inr w"
    by (simp add: tryRunNextJobInChannel_def)
next
  fix pre k post
  assume a: "queue ch = pre @ k # post \<and> (\<forall>x\<in>set pre. isRunning w (nameOf w x)) \<and>
            \<not> isRunning w (nameOf w k) \<and> status (jobs w k) = Queued"
  then have "scanQueue (\<lambda>j. isRunning w (nameOf w j)) (queue ch) = Some (k, pre @ post)"
    using scanQueue_first[of pre "\<lambda>j. isRunning w (nameOf w j)" k post] by simp
  with assms a show "tryRunNextJobInChannel w cn =
              Inr ((setChannel cn (ch\<lparr> queue := pre @ post, runningJob := Some k \<rparr>) w)
                     \<lparr> runningJobs := runningJobs w @ [k],
                       promise := (promise w)(k := PendingStart),
                       sink := sink w @ [StartJob (nameOf w k)] \<rparr>)"
    by (simp add: tryRunNextJobInChannel_def executeJob_def)
next
  fix j show "queueJobToChannel w j cn ch =
            tryRunNextJobInChannel (setChannel cn (ch\<lparr> queue := queue ch @ [j] \<rparr>) w) cn"
    by (simp add: queueJobToChannel_def)
next
  fix c q assume "map_of (channels v) c = Some q"
  with reachable_inv[OF assms(3)] show "sorted_wrt (<) (queue q)"
    by (auto simp: inv_def core_def chanInv_def chanOK_def)
next
  fix e v' c q a b
  assume "enabled v e \<and> step v e = Inr v' \<and> map_of (channels v') c = Some q \<and>
            runningJob q = Some b \<and> b \<notin> set (runningJobs v) \<and> a \<in> set (queue q) \<and> a < b"
  then show "isRunning v' (nameOf v' a)"
    using step_overtakes[OF reachable_inv[OF assms(3)], of e v' c q b a] by blast
qed

theorem promotion_fifo_with_skipping_witness:
  "map_of (channels stalledExample) ''x'' = Some \<lparr>name = ''x'', runningJob = None, queue = [1, 2]\<rparr> \<and>
   isRunning stalledExample (nameOf stalledExample 1) \<and>
   \<not> isRunning stalledExample (nameOf stalledExample 2) \<and>
   (case tryRunNextJobInChannel stalledExample ''x'' of
      Inl e \<Rightarrow> False
    | Inr w' \<Rightarrow> channels w' = [(''x'', \<lparr>name = ''x'', runningJob = Some 2, queue = [1]\<rparr>)] \<and>
        runningJobs w' = [3, 2] \<and> promise w' 2 = PendingStart) \<and>
   (case run initial
      [RunTask ''A'' 0 100 \<lparr>optChannel = Some ''x'', optSilent = None\<rparr>,
       RunTask ''T'' 0 100 \<lparr>optChannel = Some ''x'', optSilent = None\<rparr>,
       RunTask ''B'' 0 100 \<lparr>optChannel = Some ''x'', optSilent = None\<rparr>,
       RunTask ''T'' 0 100 \<lparr>optChannel = None, optSilent = None\<rparr>,
       StartJobResolved 0 7 None, WorkSettled 0 None, Conclude 0] of
      None \<Rightarrow> False
    | Some v \<Rightarrow> reachable v \<and> runningJobs v = [0, 3] \<and>
        map_of (channels v) ''x'' = Some \<lparr>name = ''x'', runningJob = Some 0, queue = [1, 2]\<rparr> \<and>
        (case step v (FinishJobSettled 0) of
           Inl e \<Rightarrow> False
         | Inr v' \<Rightarrow>
             map_of (channels v') ''x'' = Some \<lparr>name = ''x'', runningJob = Some 2, queue = [1]\<rparr> \<and>
             isRunning v' (nameOf v' 1)))"
proof -
  let ?ch = "\<lparr>name = ''x'', runningJob = None, queue = [1, 2]\<rparr>"
  let ?evs = "[RunTask ''A'' 0 100 \<lparr>optChannel = Some ''x'', optSilent = None\<rparr>,
       RunTask ''T'' 0 100 \<lparr>optChannel = Some ''x'', optSilent = None\<rparr>,
       RunTask ''B'' 0 100 \<lparr>optChannel = Some ''x'', optSilent = None\<rparr>,
       RunTask ''T'' 0 100 \<lparr>optChannel = None, optSilent = None\<rparr>,
       StartJobResolved 0 7 None, WorkSettled 0 None, Conclude 0]"
  have m: "map_of (channels stalledExample) ''x'' = Some ?ch" "runningJob ?ch = None"
    by (simp_all add: stalledExample_def)
  have b: "isRunning stalledExample (nameOf stalledExample 1)"
    "\<not> isRunning stalledExample (nameOf stalledExample 2)"
    "status (jobs stalledExample 2) = Queued"
    by (simp_all add: stalledExample_def model_defs)
  have "run initial ?evs \<noteq> None" by (simp add: model_defs)
  then obtain v where v: "run initial ?evs = Some v" by blast
  have re: "reachable v" by (rule run_reachable[OF reachable_initial v])
  have f: "runningJobs v = [0, 3]"
    "map_of (channels v) ''x'' = Some \<lparr>name = ''x'', runningJob = Some 0, queue = [1, 2]\<rparr>"
    "enabled v (FinishJobSettled 0)"
    using v by (auto simp: model_defs)
  have "case step v (FinishJobSettled 0) of Inl e \<Rightarrow> False
        | Inr v' \<Rightarrow> map_of (channels v') ''x'' =
            Some \<lparr>name = ''x'', runningJob = Some 2, queue = [1]\<rparr>"
    using v by (auto simp: model_defs)
  then obtain v' where v': "step v (FinishJobSettled 0) = Inr v'"
    "map_of (channels v') ''x'' = Some \<lparr>name = ''x'', runningJob = Some 2, queue = [1]\<rparr>"
    by (auto split: sum.splits)
  note t = promotion_fifo_with_skipping[OF m re]
  have q: "queue ?ch = [1] @ 2 # []" by simp
  from t[THEN conjunct2, THEN conjunct1, rule_format, of "[1]" 2 "[]"] q b
  have p: "tryRunNextJobInChannel stalledExample ''x'' =
              Inr ((setChannel ''x'' (?ch\<lparr> queue := [1] @ [], runningJob := Some 2 \<rparr>) stalledExample)
                     \<lparr> runningJobs := runningJobs stalledExample @ [2],
                       promise := (promise stalledExample)(2 := PendingStart),
                       sink := sink stalledExample @ [StartJob (nameOf stalledExample 2)] \<rparr>)"
    by simp
  from t[THEN conjunct2, THEN conjunct2, THEN conjunct2, THEN conjunct2, rule_format,
      of "FinishJobSettled 0" v' "''x''" "\<lparr>name = ''x'', runningJob = Some 2, queue = [1]\<rparr>" 2 1]
    f v'
  have o: "isRunning v' (nameOf v' 1)" by simp
  from p m b have 1: "map_of (channels stalledExample) ''x'' = Some ?ch \<and>
   isRunning stalledExample (nameOf stalledExample 1) \<and>
   \<not> isRunning stalledExample (nameOf stalledExample 2) \<and>
   (case tryRunNextJobInChannel stalledExample ''x'' of
      Inl e \<Rightarrow> False
    | Inr w' \<Rightarrow> channels w' = [(''x'', \<lparr>name = ''x'', runningJob = Some 2, queue = [1]\<rparr>)] \<and>
        runningJobs w' = [3, 2] \<and> promise w' 2 = PendingStart)"
    by (simp add: stalledExample_def setChannel_def)
  from v re f v' o have 2: "(case run initial ?evs of
      None \<Rightarrow> False
    | Some v \<Rightarrow> reachable v \<and> runningJobs v = [0, 3] \<and>
        map_of (channels v) ''x'' = Some \<lparr>name = ''x'', runningJob = Some 0, queue = [1, 2]\<rparr> \<and>
        (case step v (FinishJobSettled 0) of
           Inl e \<Rightarrow> False
         | Inr v' \<Rightarrow>
             map_of (channels v') ''x'' = Some \<lparr>name = ''x'', runningJob = Some 2, queue = [1]\<rparr> \<and>
             isRunning v' (nameOf v' 1)))"
    by simp
  from 1 2 show ?thesis by blast
qed

section \<open>A failing start log\<close>






section \<open>Timeouts and the promotion pass\<close>

lemma settled_cong:
  assumes "channels w' = channels w" "runningJobs w' = runningJobs w" "nameOf w' = nameOf w"
  shows "settled w' cn = settled w cn"
proof -
  have "isRunning w' = isRunning w" by (simp add: isRunning_iff fun_eq_iff assms)
  then show ?thesis by (simp add: settled_def assms split: option.splits)
qed

lemma timeoutJob_name:
  assumes "inv w" "j \<in> set (runningJobs w)" "timeoutJob w j = Inr w1"
  shows "nameOf w1 = nameOf w"
proof -
  from assms(1) have c: "core w" and t: "tracked {} w" by (simp_all add: inv_def)
  from unregisterJob_inv[OF c t assms(2)] obtain w0 where
    w0: "unregisterJob w j = Inr w0" "jobs w0 = jobs w" by blast
  with assms(3) show ?thesis
    by (auto simp: timeoutJob_def updJob_def nameOf_def fun_eq_iff)
qed

text \<open>
  C4, as stated: after a timeout, \<open>runTask\<close> with the name of the timed-out job and no
  channel starts a new execution. Not always: the promotion pass of the timeout itself
  may start a job of that name that was waiting in a queue, and \<open>runTask\<close> then returns
  that job and creates nothing. Below job 1 (\<open>T\<close>) waits in channel \<open>x\<close> while job 2
  (\<open>T\<close>, no channel) runs; when job 2 times out the pass starts job 1, and a call of
  \<open>runTask\<close> for \<open>T\<close> returns job 1 in an unchanged state.
\<close>

theorem runTask_after_timeout_counterexample:
  "(case run initial
      [RunTask ''U'' 0 100 \<lparr>optChannel = Some ''x'', optSilent = None\<rparr>,
       RunTask ''T'' 0 100 \<lparr>optChannel = Some ''x'', optSilent = None\<rparr>,
       RunTask ''T'' 0 100 \<lparr>optChannel = None, optSilent = None\<rparr>,
       StartJobResolved 0 7 None, WorkSettled 0 None, Conclude 0, FinishJobSettled 0,
       StartJobResolved 2 8 None, TimerFires 2] of
      None \<Rightarrow> False
    | Some w \<Rightarrow> timedOut (jobs w 2) \<and> taskName (jobs w 2) = ''T'' \<and> runningJobs w = [1] \<and>
        nextExecutionId w = 3 \<and>
        (case runTask w ''T'' 0 100 \<lparr>optChannel = None, optSilent = None\<rparr> of
           Inl e \<Rightarrow> False
         | Inr (k, w') \<Rightarrow> k = 1 \<and> nextExecutionId w' = 3 \<and> runningJobs w' = [1]))"
  by (simp add: model_defs)

text \<open>
  C4, amended: when the timer of job \<open>j\<close> fires in a reachable state while \<open>j\<close> is in the
  running set, the job leaves the running set and the slot of its channel and is marked
  \<open>timedOut\<close>; its status and the stage of its promise chain stay as they were (the
  executor is not cancelled). A call of \<open>runTask\<close> with the name of \<open>j\<close> and no channel
  made then never returns \<open>j\<close>: it returns a running job of that name, which is a new
  job, created and admitted to execution at once, unless the promotion pass of the
  timeout has put a queued job of that name into the running set; then it returns that
  job and changes nothing.
\<close>

theorem timeout_independence:
  assumes "reachable w" and "j \<in> set (timers w)" and "j \<in> set (runningJobs w)"
  shows "\<exists>w'. step w (TimerFires j) = Inr w' \<and> reachable w' \<and>
           j \<notin> set (runningJobs w') \<and>
           (\<forall>cn ch. map_of (channels w') cn = Some ch \<longrightarrow>
              runningJob ch \<noteq> Some j \<and> j \<notin> set (queue ch)) \<and>
           timedOut (jobs w' j) \<and> promise w' j = promise w j \<and>
           status (jobs w' j) = status (jobs w j) \<and> nameOf w' j = nameOf w j \<and>
           (\<forall>ex tmo sil. \<exists>k w''.
              runTask w' (nameOf w j) ex tmo \<lparr>optChannel = None, optSilent = sil\<rparr> = Inr (k, w'') \<and>
              k \<noteq> j \<and> k \<in> set (runningJobs w'') \<and> nameOf w'' k = nameOf w j \<and>
              (if isRunning w' (nameOf w j) then w'' = w'
               else k = nextExecutionId w' \<and> executor (jobs w'' k) = ex \<and>
                    runningJobs w'' = runningJobs w' @ [k] \<and> promise w'' k = PendingStart))"
proof -
  note i = reachable_inv[OF assms(1)]
  from timeoutJob_inv[OF i assms(2,3)] obtain w1 where
    w1: "timeoutJob w j = Inr w1" "inv (w1\<lparr> timers := removeAll j (timers w1) \<rparr>)"
      "j \<notin> set (runningJobs w1)" "timedOut (jobs w1 j)" "promise w1 j = promise w j"
      "status (jobs w1 j) = status (jobs w j)" by blast
  let ?w' = "w1\<lparr> timers := removeAll j (timers w1) \<rparr>"
  have s: "step w (TimerFires j) = Inr ?w'" using w1(1) by simp
  have re: "reachable ?w'" by (rule reachable_step[OF assms(1) _ s]) (simp add: assms(2))
  note i' = w1(2)
  have nm: "nameOf ?w' = nameOf w" using timeoutJob_name[OF i assms(3) w1(1)] by simp
  from invD_job(4)[OF i assms(2)] have pj: "promise w j \<noteq> NotStarted" by auto
  with invD_job(1)[OF i, of j] have jl: "j < nextExecutionId w" by (auto simp: jobOK_def)
  have slot: "runningJob ch \<noteq> Some j \<and> j \<notin> set (queue ch)"
    if "map_of (channels ?w') cn = Some ch" for cn ch
  proof -
    from i' that have ok: "chanOK ?w' cn ch" by (simp add: inv_def core_def chanInv_def)
    from chanOK_slotD(1)[OF ok] w1(3) have "runningJob ch \<noteq> Some j" by auto
    moreover from chanOK_queueD(3)[OF ok] w1(5) pj have "j \<notin> set (queue ch)" by auto
    ultimately show ?thesis by simp
  qed
  have rt: "\<exists>k w''.
              runTask ?w' (nameOf w j) ex tmo \<lparr>optChannel = None, optSilent = sil\<rparr> = Inr (k, w'') \<and>
              k \<noteq> j \<and> k \<in> set (runningJobs w'') \<and> nameOf w'' k = nameOf w j \<and>
              (if isRunning ?w' (nameOf w j) then w'' = ?w'
               else k = nextExecutionId ?w' \<and> executor (jobs w'' k) = ex \<and>
                    runningJobs w'' = runningJobs ?w' @ [k] \<and> promise w'' k = PendingStart)"
    for ex tmo sil
  proof (cases "findRunningJob ?w' (nameOf w j)")
    case (Some k)
    from findWhere_SomeD[OF Some[unfolded findRunningJob_def]]
    have k: "k \<in> set (runningJobs ?w')" "nameOf ?w' k = nameOf w j" by simp_all
    with w1(3) have "k \<noteq> j" by auto
    with Some k show ?thesis by (auto simp: runTask_def isRunning_def)
  next
    case None
    let ?o = "\<lparr>optChannel = None, optSilent = sil\<rparr>"
    from createAndRunJob_inv[OF i' None, of ?o ex tmo] obtain w'' where
      c: "createAndRunJob ?w' (nameOf w j) ex tmo ?o = Inr (nextExecutionId ?w', w'')"
        "taskName (jobs w'' (nextExecutionId ?w')) = nameOf w j"
        "executor (jobs w'' (nextExecutionId ?w')) = ex"
        "runningJobs w'' = runningJobs ?w' @ [nextExecutionId ?w']"
        "promise w'' (nextExecutionId ?w') = PendingStart" by auto
    from timeoutJob_inv[OF i assms(2,3)] w1(1) have "nextExecutionId w1 = nextExecutionId w"
      by auto
    with jl have "nextExecutionId ?w' \<noteq> j" by simp
    with c None show ?thesis
      by (auto simp: runTask_def findQueuedTaskInChannel_def isRunning_def nameOf_def)
  qed
  from s re w1(3,4,5,6) nm slot rt show ?thesis
    by (intro exI[of _ ?w']) (simp add: nm)
qed

theorem timeout_independence_witness:
  "(case run initial
      [RunTask ''T'' 0 100 \<lparr>optChannel = None, optSilent = None\<rparr>,
       StartJobResolved 0 7 None] of
      None \<Rightarrow> False
    | Some w \<Rightarrow> reachable w \<and> 0 \<in> set (timers w) \<and> 0 \<in> set (runningJobs w) \<and>
        nameOf w 0 = ''T'' \<and>
        (\<exists>w'. step w (TimerFires 0) = Inr w' \<and> timedOut (jobs w' 0) \<and>
           0 \<notin> set (runningJobs w') \<and> promise w' 0 = promise w 0 \<and>
           (\<exists>k w''. runTask w' ''T'' 5 100 \<lparr>optChannel = None, optSilent = None\<rparr> = Inr (k, w'') \<and>
              k \<noteq> 0 \<and> k \<in> set (runningJobs w''))))"
proof -
  let ?evs = "[RunTask ''T'' 0 100 \<lparr>optChannel = None, optSilent = None\<rparr>,
       StartJobResolved 0 7 None]"
  have "run initial ?evs \<noteq> None" by (simp add: model_defs)
  then obtain w where w: "run initial ?evs = Some w" by blast
  have re: "reachable w" by (rule run_reachable[OF reachable_initial w])
  have f: "0 \<in> set (timers w)" "0 \<in> set (runningJobs w)" "nameOf w 0 = ''T''"
    using w by (auto simp: model_defs)
  from timeout_independence[OF re f(1,2)] obtain w' where
    w': "step w (TimerFires 0) = Inr w'" "timedOut (jobs w' 0)" "0 \<notin> set (runningJobs w')"
      "promise w' 0 = promise w 0"
      "\<forall>ex tmo sil. \<exists>k w''.
          runTask w' (nameOf w 0) ex tmo \<lparr>optChannel = None, optSilent = sil\<rparr> = Inr (k, w'') \<and>
          k \<noteq> 0 \<and> k \<in> set (runningJobs w'') \<and> nameOf w'' k = nameOf w 0 \<and>
          (if isRunning w' (nameOf w 0) then w'' = w'
           else k = nextExecutionId w' \<and> executor (jobs w'' k) = ex \<and>
                runningJobs w'' = runningJobs w' @ [k] \<and> promise w'' k = PendingStart)"
    by blast
  from w'(5)[rule_format, of 5 100 None] f(3) obtain k w'' where
    "runTask w' ''T'' 5 100 \<lparr>optChannel = None, optSilent = None\<rparr> = Inr (k, w'')"
    "k \<noteq> 0" "k \<in> set (runningJobs w'')" by auto
  with w re f w'(1-4) show ?thesis by auto
qed

section \<open>The order of the promotion pass\<close>

lemma unstallLoop_append:
  "unstallLoop (xs @ ys) w =
     (case unstallLoop xs w of Inl e \<Rightarrow> Inl e | Inr v \<Rightarrow> unstallLoop ys v)"
  by (induction xs arbitrary: w) (simp_all split: sum.splits)

text \<open>A job that a promotion pass brings into the running set holds, after the pass,
  the slot of one of the channels that the pass has visited.\<close>

lemma unstallLoop_new_slot:
  assumes "unstallLoop cns w = Inr w'" "b \<in> set (runningJobs w')" "b \<notin> set (runningJobs w)"
  shows "\<exists>c\<in>set cns. \<exists>ch. map_of (channels w') c = Some ch \<and> runningJob ch = Some b"
  using assms
proof (induction cns arbitrary: w)
  case Nil
  then show ?case by simp
next
  case (Cons cn cns)
  from Cons.prems(1) obtain w1 where
    w1: "tryRunNextJobInChannel w cn = Inr w1" "unstallLoop cns w1 = Inr w'"
    by (auto split: sum.splits)
  show ?case
  proof (cases "b \<in> set (runningJobs w1)")
    case False
    from Cons.IH[OF w1(2) Cons.prems(2) False] show ?thesis by auto
  next
    case True
    from tryRunNext_cases[OF w1(1)] True Cons.prems(3) obtain ch pre k post where
      p: "w1 = (setChannel cn (ch\<lparr> queue := pre @ post, runningJob := Some k \<rparr>) w)
               \<lparr> runningJobs := runningJobs w @ [k],
                 promise := (promise w)(k := PendingStart),
                 sink := sink w @ [StartJob (nameOf w k)] \<rparr>"
      by auto
    from True Cons.prems(3) p have bk: "b = k" by auto
    have e1: "map_of (channels w1) cn = Some (ch\<lparr> queue := pre @ post, runningJob := Some k \<rparr>)"
      by (simp add: p)
    from unstallLoop_busy[OF w1(2) e1] bk show ?thesis by simp
  qed
qed

text \<open>
  The pass visits the channels in the order of the list. Let channel \<open>B\<close> be idle with
  job \<open>k\<close> the first job of its queue that is not blocked. After the pass, either a
  channel that stands before \<open>B\<close> holds a running job of the name of \<open>k\<close>, and \<open>k\<close> is
  still in the queue of \<open>B\<close>; or none does, and \<open>k\<close> runs in the slot of \<open>B\<close>.
\<close>

lemma unstallLoop_order:
  assumes c: "core w" and t: "tracked X w" and d: "distinct (ks1 @ B # ks2)"
    and u: "unstallLoop (ks1 @ B # ks2) w = Inr w'"
    and ch: "map_of (channels w) B = Some ch" "runningJob ch = None"
      "queue ch = qpre @ k # qpost"
    and pre: "\<forall>x\<in>set qpre. isRunning w (nameOf w x)"
    and free: "\<not> isRunning w (nameOf w k)"
  shows "if (\<exists>C\<in>set ks1. \<exists>chC k'. map_of (channels w') C = Some chC \<and>
               runningJob chC = Some k' \<and> nameOf w k' = nameOf w k)
         then k \<notin> set (runningJobs w') \<and>
              (\<exists>chB. map_of (channels w') B = Some chB \<and> k \<in> set (queue chB))
         else k \<in> set (runningJobs w') \<and>
              map_of (channels w') B = Some (ch\<lparr> queue := qpre @ qpost, runningJob := Some k \<rparr>)"
proof -
  from d have B1: "B \<notin> set ks1" and B2: "B \<notin> set ks2" and d12: "set ks1 \<inter> set ks2 = {}"
    by auto
  from unstallLoop_inv[OF c t, of ks1] obtain v where
    v: "unstallLoop ks1 w = Inr v" "core v" "tracked X v" "grows w v" by blast
  from tryRunNext_inv[OF v(2,3), of B] obtain v1 where
    v1: "tryRunNextJobInChannel v B = Inr v1" "core v1" "tracked X v1" "grows v v1" by blast
  from unstallLoop_inv[OF v1(2,3), of ks2] obtain v2 where
    v2: "unstallLoop ks2 v1 = Inr v2" "core v2" "tracked X v2" "grows v1 v2" by blast
  from u v(1) v1(1) v2(1) have w': "v2 = w'" by (simp add: unstallLoop_append)
  note nm = grows_nameOf[OF v(4)] grows_nameOf[OF v1(4)] grows_nameOf[OF v2(4)]
  have chv: "map_of (channels v) B = Some ch"
    using unstallLoop_other[OF v(1) B1] ch(1) by simp
  have prev: "\<forall>x\<in>set qpre. isRunning v (nameOf v x)"
    using pre grows_isRunning[OF v(4)] by (simp add: nm)
  have keep: "map_of (channels w') C = map_of (channels v) C" if "C \<in> set ks1" for C
  proof -
    from that B1 d12 have "C \<noteq> B" "C \<notin> set ks2" by auto
    with tryRunNext_other[OF v1(1), of C] unstallLoop_other[OF v2(1), of C] w'
    show ?thesis by simp
  qed
  have okv: "chanOK v B ch" using v(2) chv by (simp add: core_def chanInv_def)
  have kq: "k \<in> set (queue ch)" by (simp add: ch(3))
  show ?thesis
  proof (cases "isRunning v (nameOf v k)")
    case True
    then obtain b where b: "b \<in> set (runningJobs v)" "nameOf v b = nameOf v k"
      by (auto simp: isRunning_iff)
    have "b \<notin> set (runningJobs w)"
    proof
      assume "b \<in> set (runningJobs w)"
      then have "nameOf w b \<in> nameOf w ` set (runningJobs w)" by (rule imageI)
      with b(2) free show False by (simp add: isRunning_iff nm)
    qed
    from unstallLoop_new_slot[OF v(1) b(1) this] obtain C chC where
      C: "C \<in> set ks1" "map_of (channels v) C = Some chC" "runningJob chC = Some b" by blast
    have cond: "\<exists>C\<in>set ks1. \<exists>chC k'. map_of (channels w') C = Some chC \<and>
               runningJob chC = Some k' \<and> nameOf w k' = nameOf w k"
      using C keep[OF C(1)] b(2) by (auto simp: nm)
    from tryRunNext_cases[OF v1(1)] True chv ch(3)
    have "\<exists>chB. map_of (channels v1) B = Some chB \<and> k \<in> set (queue chB)"
    proof (elim disjE exE conjE)
      assume "v1 = v"
      with chv kq show ?thesis by simp
    next
      fix ch0 pre0 k0 post0
      assume a: "map_of (channels v) B = Some ch0" "queue ch0 = pre0 @ k0 # post0"
        "\<not> isRunning v (nameOf v k0)"
        "v1 = (setChannel B (ch0\<lparr> queue := pre0 @ post0, runningJob := Some k0 \<rparr>) v)
               \<lparr> runningJobs := runningJobs v @ [k0],
                 promise := (promise v)(k0 := PendingStart),
                 sink := sink v @ [StartJob (nameOf v k0)] \<rparr>"
      from a(1) chv have "ch0 = ch" by simp
      moreover from a(3) True have "k0 \<noteq> k" by auto
      ultimately have "k \<in> set (pre0 @ post0)" using a(2) kq by auto
      with a(4) show ?thesis by simp
    qed
    with unstallLoop_other[OF v2(1) B2] w' obtain chB where
      chB: "map_of (channels w') B = Some chB" "k \<in> set (queue chB)" by auto
    from v2(2) w' chB(1) have "chanOK w' B chB" by (simp add: core_def chanInv_def)
    from chanOK_queueD(3)[OF this chB(2)] have "promise w' k = NotStarted" .
    moreover have "active (promise w' k)" if "k \<in> set (runningJobs w')"
      using v2(2) w' that by (auto simp: core_def runInv_def runOK_def)
    ultimately have "k \<notin> set (runningJobs w')" by (auto simp: active_def)
    with cond chB show ?thesis by auto
  next
    case False
    have ncond: "\<not> (\<exists>C\<in>set ks1. \<exists>chC k'. map_of (channels w') C = Some chC \<and>
               runningJob chC = Some k' \<and> nameOf w k' = nameOf w k)"
    proof
      assume "\<exists>C\<in>set ks1. \<exists>chC k'. map_of (channels w') C = Some chC \<and>
               runningJob chC = Some k' \<and> nameOf w k' = nameOf w k"
      then obtain C chC k' where C: "C \<in> set ks1" "map_of (channels w') C = Some chC"
        "runningJob chC = Some k'" "nameOf w k' = nameOf w k" by blast
      from keep[OF C(1)] C(2) have "map_of (channels v) C = Some chC" by simp
      with v(2) have "chanOK v C chC" by (simp add: core_def chanInv_def)
      from chanOK_slotD(1)[OF this C(3)] have "nameOf w k' \<in> nameOf w ` set (runningJobs v)"
        by (rule imageI)
      with C(4) have "isRunning v (nameOf v k)" by (simp add: isRunning_iff nm)
      with False show False ..
    qed
    from chanOK_queueD(2)[OF okv kq] have st: "status (jobs v k) = Queued" .
    from scanQueue_first[of qpre "\<lambda>j. isRunning v (nameOf v j)" k qpost] prev False
    have sc: "scanQueue (\<lambda>j. isRunning v (nameOf v j)) (queue ch) = Some (k, qpre @ qpost)"
      by (simp add: ch(3))
    have "tryRunNextJobInChannel v B =
        Inr ((setChannel B (ch\<lparr> queue := qpre @ qpost, runningJob := Some k \<rparr>) v)
               \<lparr> runningJobs := runningJobs v @ [k],
                 promise := (promise v)(k := PendingStart),
                 sink := sink v @ [StartJob (nameOf v k)] \<rparr>)"
      using chv ch(2) sc st False
      by (simp add: tryRunNextJobInChannel_def executeJob_def)
    with v1(1) have e1:
      "map_of (channels v1) B = Some (ch\<lparr> queue := qpre @ qpost, runningJob := Some k \<rparr>)"
      and r1: "k \<in> set (runningJobs v1)" by auto
    from unstallLoop_busy[OF v2(1) e1] w'
    have "map_of (channels w') B = Some (ch\<lparr> queue := qpre @ qpost, runningJob := Some k \<rparr>)"
      by simp
    moreover from v2(4) r1 w' have "k \<in> set (runningJobs w')" by (auto simp: grows_def)
    ultimately show ?thesis using ncond by simp
  qed
qed

text \<open>A pass drops no job: a queued job stays in the queue of its channel or takes its
  slot.\<close>

lemma unstallLoop_keeps:
  assumes "unstallLoop cns w = Inr w'" "map_of (channels w) cn = Some ch" "x \<in> set (queue ch)"
  shows "\<exists>ch'. map_of (channels w') cn = Some ch' \<and>
           (x \<in> set (queue ch') \<or> runningJob ch' = Some x)"
  using assms
proof (induction cns arbitrary: w ch)
  case Nil
  then show ?case by simp
next
  case (Cons c cns)
  from Cons.prems(1) obtain w1 where
    w1: "tryRunNextJobInChannel w c = Inr w1" "unstallLoop cns w1 = Inr w'"
    by (auto split: sum.splits)
  from tryRunNext_cases[OF w1(1)]
  show ?case
  proof (elim disjE exE conjE)
    assume "w1 = w"
    with Cons.IH[OF w1(2), of ch] Cons.prems(2,3) show ?thesis by simp
  next
    fix ch0 pre0 k0 post0
    assume a: "map_of (channels w) c = Some ch0" "queue ch0 = pre0 @ k0 # post0"
      "w1 = (setChannel c (ch0\<lparr> queue := pre0 @ post0, runningJob := Some k0 \<rparr>) w)
             \<lparr> runningJobs := runningJobs w @ [k0],
               promise := (promise w)(k0 := PendingStart),
               sink := sink w @ [StartJob (nameOf w k0)] \<rparr>"
    show ?thesis
    proof (cases "c = cn")
      case False
      with a(3) Cons.prems(2) have "map_of (channels w1) cn = Some ch" by simp
      from Cons.IH[OF w1(2) this Cons.prems(3)] show ?thesis .
    next
      case True
      with a(1) Cons.prems(2) have e: "ch0 = ch" by simp
      have e1: "map_of (channels w1) cn = Some (ch\<lparr> queue := pre0 @ post0, runningJob := Some k0 \<rparr>)"
        using a(3) True e by simp
      show ?thesis
      proof (cases "x = k0")
        case True
        from unstallLoop_busy[OF w1(2) e1] True show ?thesis by simp
      next
        case False
        with a(2) e Cons.prems(3) have "x \<in> set (queue (ch\<lparr> queue := pre0 @ post0, runningJob := Some k0 \<rparr>))"
          by auto
        from Cons.IH[OF w1(2) e1 this] show ?thesis .
      qed
    qed
  qed
qed

text \<open>What \<open>_unregisterJob\<close> does to the channels, for a job \<open>j\<close> of the running set.\<close>

lemma unregisterJob_pass:
  assumes c: "core w" and t: "tracked X w" and jr: "j \<in> set (runningJobs w)"
  shows "\<exists>w1 w'. unregisterJob w j = Inr w' \<and> unstallLoop (map fst (channels w)) w1 = Inr w' \<and>
           core w1 \<and> tracked (insert j X) w1 \<and> core w' \<and> jobs w1 = jobs w \<and> jobs w' = jobs w \<and>
           map fst (channels w1) = map fst (channels w) \<and>
           set (runningJobs w1) = set (runningJobs w) - {j} \<and>
           (\<forall>c. channel (jobs w j) \<noteq> Some c \<longrightarrow> map_of (channels w1) c = map_of (channels w) c) \<and>
           (\<forall>cn ch. map_of (channels w) cn = Some ch \<longrightarrow>
              (\<exists>ch1. map_of (channels w1) cn = Some ch1 \<and> queue ch1 = queue ch))"
proof -
  from remove_core[OF c jr] obtain w1 where
    w1: "removeJobFromChannel (w\<lparr> runningJobs := remove1 j (runningJobs w) \<rparr>)
           (channel (jobs w j)) j = Inr w1" "core w1" "jobs w1 = jobs w" "promise w1 = promise w"
       "timers w1 = timers w" "set (runningJobs w1) = set (runningJobs w) - {j}"
       "map fst (channels w1) = map fst (channels w)"
       "\<forall>c. channel (jobs w j) \<noteq> Some c \<longrightarrow> map_of (channels w1) c = map_of (channels w) c"
       "\<forall>cn ch. map_of (channels w1) cn = Some ch \<longrightarrow>
              (\<exists>ch0. map_of (channels w) cn = Some ch0 \<and> queue ch = queue ch0 \<and>
                 (runningJob ch = runningJob ch0 \<or> runningJob ch0 = Some j \<and> runningJob ch = None))"
    by blast
  have t1: "tracked (insert j X) w1"
    using t w1(3,4,5,6) unfolding tracked_def by auto
  from unstallLoop_inv[OF w1(2) t1, of "map fst (channels w)"] obtain w' where
    w': "unstallLoop (map fst (channels w)) w1 = Inr w'" "core w'" "grows w1 w'" by blast
  have u: "unregisterJob w j = Inr w'"
    using jr w1(1,7) w'(1) by (simp add: unregisterJob_def tryToUnstallChannels_def)
  have q: "\<exists>ch1. map_of (channels w1) cn = Some ch1 \<and> queue ch1 = queue ch"
    if m: "map_of (channels w) cn = Some ch" for cn ch
  proof -
    from m have "cn \<in> set (map fst (channels w))" by (auto dest: map_of_SomeD intro: rev_image_eqI)
    with w1(7) have "cn \<in> set (map fst (channels w1))" by simp
    then have "cn \<in> fst ` set (channels w1)" by simp
    then obtain ch1 where e: "map_of (channels w1) cn = Some ch1"
      by (cases "map_of (channels w1) cn") (auto simp: map_of_eq_None_iff)
    with w1(9) m have "queue ch1 = queue ch" by fastforce
    with e show ?thesis by simp
  qed
  from w'(3) have "jobs w' = jobs w1" by (simp add: grows_def)
  with u w' w1(2,3,6,7,8) t1 q show ?thesis by (intro exI[of _ w1] exI[of _ w']) simp
qed

lemma unregisterJob_order:
  assumes c: "core w" and t: "tracked X w" and jr: "j \<in> set (runningJobs w)"
    and r: "unregisterJob w j = Inr w'"
    and keys: "map fst (channels w) = ks1 @ B # ks2"
    and ch: "map_of (channels w) B = Some ch" "runningJob ch = None"
      "queue ch = qpre @ k # qpost"
    and nm: "nameOf w k = nameOf w j"
    and pre: "\<forall>x\<in>set qpre. isRunning w (nameOf w x)"
  shows "if (\<exists>C\<in>set ks1. \<exists>chC k'. map_of (channels w') C = Some chC \<and>
               runningJob chC = Some k' \<and> nameOf w k' = nameOf w j)
         then k \<notin> set (runningJobs w') \<and>
              (\<exists>chB. map_of (channels w') B = Some chB \<and> k \<in> set (queue chB))
         else k \<in> set (runningJobs w') \<and>
              map_of (channels w') B = Some (ch\<lparr> queue := qpre @ qpost, runningJob := Some k \<rparr>)"
proof -
  from unregisterJob_pass[OF c t jr] r obtain w1 where
    w1: "unstallLoop (map fst (channels w)) w1 = Inr w'" "core w1" "tracked (insert j X) w1"
      "jobs w1 = jobs w" "set (runningJobs w1) = set (runningJobs w) - {j}"
      "\<forall>c. channel (jobs w j) \<noteq> Some c \<longrightarrow> map_of (channels w1) c = map_of (channels w) c"
    by auto
  from c have ri: "runInv w" and ci: "chanInv w" and dk: "distinct (map fst (channels w))"
    by (simp_all add: core_def)
  have n1: "nameOf w1 = nameOf w" using w1(4) by (simp add: nameOf_def fun_eq_iff)
  have "channel (jobs w j) \<noteq> Some B"
  proof
    assume "channel (jobs w j) = Some B"
    from runOK_slotD[OF runInvD[OF ri jr] this] ch(1,2) show False by simp
  qed
  with w1(6) ch(1) have ch1: "map_of (channels w1) B = Some ch" by simp
  note ok = chanInvD[OF ci ch(1)]
  from ri have dr: "distinct (map (nameOf w) (runningJobs w))" by (simp add: runInv_def)
  have pre1: "\<forall>x\<in>set qpre. isRunning w1 (nameOf w1 x)"
  proof
    fix x assume x: "x \<in> set qpre"
    with pre obtain b where b: "b \<in> set (runningJobs w)" "nameOf w b = nameOf w x"
      by (auto simp: isRunning_iff)
    have "nameOf w x \<noteq> nameOf w k"
    proof
      assume e: "nameOf w x = nameOf w k"
      from x have "x \<in> set (queue ch)" "k \<in> set (queue ch)" by (simp_all add: ch(3))
      from distinct_map_eq[OF chanOK_distinctD[OF ok] this e] have "x = k" .
      with chanOK_distinctD[OF ok] x show False by (simp add: ch(3))
    qed
    with b(2) nm have "b \<noteq> j" by auto
    with b(1) w1(5) have "b \<in> set (runningJobs w1)" by simp
    then have "nameOf w b \<in> nameOf w ` set (runningJobs w1)" by (rule imageI)
    then show "isRunning w1 (nameOf w1 x)" by (simp add: isRunning_iff n1 b(2))
  qed
  have free1: "\<not> isRunning w1 (nameOf w1 k)"
  proof
    assume "isRunning w1 (nameOf w1 k)"
    then obtain b where b: "b \<in> set (runningJobs w1)" "nameOf w b = nameOf w k"
      by (auto simp: isRunning_iff n1)
    from b(1) w1(5) have "b \<in> set (runningJobs w)" "b \<noteq> j" by auto
    with distinct_map_eq[OF dr this(1) jr] b(2) nm show False by simp
  qed
  from dk keys have d: "distinct (ks1 @ B # ks2)" by simp
  from unstallLoop_order[OF w1(2,3) d w1(1)[unfolded keys] ch1 ch(2,3) pre1 free1]
  show ?thesis by (simp add: n1 nm)
qed

lemma unregisterJob_keeps:
  assumes c: "core w" and t: "tracked X w" and jr: "j \<in> set (runningJobs w)"
    and r: "unregisterJob w j = Inr w'"
    and ch: "map_of (channels w) cn = Some ch" "x \<in> set (queue ch)"
  shows "\<exists>ch'. map_of (channels w') cn = Some ch' \<and>
           (x \<in> set (queue ch') \<or> runningJob ch' = Some x \<and> x \<in> set (runningJobs w'))"
proof -
  from unregisterJob_pass[OF c t jr] r obtain w1 where
    w1: "unstallLoop (map fst (channels w)) w1 = Inr w'" "core w'"
      "\<forall>cn ch. map_of (channels w) cn = Some ch \<longrightarrow>
              (\<exists>ch1. map_of (channels w1) cn = Some ch1 \<and> queue ch1 = queue ch)"
    by auto
  from w1(3) ch obtain ch1 where
    ch1: "map_of (channels w1) cn = Some ch1" "x \<in> set (queue ch1)" by fastforce
  from unstallLoop_keeps[OF w1(1) ch1] obtain ch' where
    ch': "map_of (channels w') cn = Some ch'" "x \<in> set (queue ch') \<or> runningJob ch' = Some x"
    by blast
  from w1(2) ch'(1) have "chanOK w' cn ch'" by (simp add: core_def chanInv_def)
  from chanOK_slotD(1)[OF this] ch' show ?thesis by auto
qed

text \<open>
  C5, as stated: a job queued in channel \<open>B\<close> and blocked only by a job of its name running
  in channel \<open>A\<close> is promoted in the pass that the end of \<open>A\<close>'s job triggers. Not always:
  the pass visits the channels in the order of the map, and a channel visited before
  \<open>B\<close> may promote a job of the same name first. Below, channels \<open>C\<close> and \<open>B\<close> are idle,
  each with one job \<open>T\<close> queued (jobs 1 and 3), both blocked only by job 4 (\<open>T\<close>), which
  runs in channel \<open>X\<close>. When job 4 finishes, the pass promotes job 1 in \<open>C\<close>, and job 3
  stays queued in \<open>B\<close>, which stays idle.
\<close>

theorem global_unstall_counterexample:
  "(case run initial
      [RunTask ''U'' 0 100 \<lparr>optChannel = Some ''C'', optSilent = None\<rparr>,
       RunTask ''T'' 0 100 \<lparr>optChannel = Some ''C'', optSilent = None\<rparr>,
       RunTask ''V'' 0 100 \<lparr>optChannel = Some ''B'', optSilent = None\<rparr>,
       RunTask ''T'' 0 100 \<lparr>optChannel = Some ''B'', optSilent = None\<rparr>,
       RunTask ''T'' 0 100 \<lparr>optChannel = Some ''X'', optSilent = None\<rparr>,
       StartJobResolved 0 7 None, WorkSettled 0 None, Conclude 0, FinishJobSettled 0,
       StartJobResolved 2 8 None, WorkSettled 2 None, Conclude 2, FinishJobSettled 2,
       StartJobResolved 4 9 None, WorkSettled 4 None, Conclude 4] of
      None \<Rightarrow> False
    | Some w \<Rightarrow> runningJobs w = [4] \<and> taskName (jobs w 4) = ''T'' \<and> taskName (jobs w 3) = ''T'' \<and>
        map_of (channels w) ''X'' = Some \<lparr>name = ''X'', runningJob = Some 4, queue = []\<rparr> \<and>
        map_of (channels w) ''B'' = Some \<lparr>name = ''B'', runningJob = None, queue = [3]\<rparr> \<and>
        (case step w (FinishJobSettled 4) of
           Inl e \<Rightarrow> False
         | Inr w' \<Rightarrow> runningJobs w' = [1] \<and> status (jobs w' 4) = Finished \<and>
             map_of (channels w') ''B'' = Some \<lparr>name = ''B'', runningJob = None, queue = [3]\<rparr>))"
  by (simp add: model_defs)

text \<open>
  C5, amended. Let job \<open>j\<close> be unregistered in a reachable state \<open>w\<close>: its timer fires
  while it is in the running set, or its last callback runs and it has not timed out.
  The step succeeds and ends in a state \<open>w'\<close> in which

  \<^item> \<open>j\<close> is not in the running set;
  \<^item> every channel has been tried: it has a running job, or each job in its queue is
    blocked by a running job of its name;
  \<^item> no queued job is lost: it is still in the queue of its channel, or it runs in the
    slot of that channel;
  \<^item> the channels have been tried in the order of the map. Let \<open>B\<close> be an idle channel
    and \<open>k\<close> a job of its queue that has the name of \<open>j\<close>, every job before \<open>k\<close> in the
    queue being blocked. If the step has started a job of that name in a channel that
    stands before \<open>B\<close> in the map (the job is in the slot of that channel afterwards and
    was not running before), then \<open>k\<close> is still queued in \<open>B\<close> and does not run;
    otherwise \<open>k\<close> runs in the slot of \<open>B\<close> and the rest of the queue of \<open>B\<close> is as it
    was.
\<close>

theorem global_unstall:
  assumes "reachable w"
    and "e = TimerFires j \<and> j \<in> set (timers w) \<and> j \<in> set (runningJobs w) \<or>
         e = FinishJobSettled j \<and> promise w j = PendingFinishLog r \<and> \<not> timedOut (jobs w j)"
  shows "\<exists>w'. step w e = Inr w' \<and> reachable w' \<and> j \<notin> set (runningJobs w') \<and>
           nameOf w' = nameOf w \<and>
           (\<forall>cn ch. map_of (channels w') cn = Some ch \<longrightarrow>
              runningJob ch \<noteq> None \<or>
              (\<forall>k\<in>set (queue ch). \<exists>b\<in>set (runningJobs w'). nameOf w b = nameOf w k)) \<and>
           (\<forall>cn ch x. map_of (channels w) cn = Some ch \<and> x \<in> set (queue ch) \<longrightarrow>
              (\<exists>ch'. map_of (channels w') cn = Some ch' \<and>
                 (x \<in> set (queue ch') \<or> runningJob ch' = Some x \<and> x \<in> set (runningJobs w')))) \<and>
           (\<forall>ks1 B ks2 ch qpre k qpost.
              map fst (channels w) = ks1 @ B # ks2 \<and> map_of (channels w) B = Some ch \<and>
              runningJob ch = None \<and> queue ch = qpre @ k # qpost \<and>
              nameOf w k = nameOf w j \<and> (\<forall>x\<in>set qpre. isRunning w (nameOf w x)) \<longrightarrow>
              (if (\<exists>C\<in>set ks1. \<exists>chC k'. map_of (channels w') C = Some chC \<and>
                     runningJob chC = Some k' \<and> k' \<notin> set (runningJobs w) \<and>
                     nameOf w k' = nameOf w j)
               then k \<notin> set (runningJobs w') \<and>
                    (\<exists>chB. map_of (channels w') B = Some chB \<and> k \<in> set (queue chB))
               else k \<in> set (runningJobs w') \<and>
                    map_of (channels w') B =
                      Some (ch\<lparr> queue := qpre @ qpost, runningJob := Some k \<rparr>)))"
proof -
  note i = reachable_inv[OF assms(1)]
  from i have c: "core w" and t: "tracked {} w" by (simp_all add: inv_def)
  have jr: "j \<in> set (runningJobs w)"
    using assms(2) invD_job(2)[OF i, of j] by (auto simp: active_def)
  have en: "enabled w e" using assms(2) by auto
  from unregisterJob_inv[OF c t jr] obtain w0 where
    w0: "unregisterJob w j = Inr w0" "core w0" "tracked {j} w0" "j \<notin> set (runningJobs w0)"
      "jobs w0 = jobs w" by auto
  have st0: "settled w0 cn" for cn by (rule unregisterJob_settled[OF c t jr w0(1)])
  have n0: "nameOf w0 = nameOf w" using w0(5) by (simp add: nameOf_def fun_eq_iff)
  have "\<exists>w'. step w e = Inr w' \<and> channels w' = channels w0 \<and>
          runningJobs w' = runningJobs w0 \<and> nameOf w' = nameOf w0"
  proof -
    from assms(2) show ?thesis
    proof (elim disjE conjE)
      assume a: "e = TimerFires j"
      then show ?thesis using w0(1)
        by (simp add: timeoutJob_def updJob_def nameOf_def fun_eq_iff)
    next
      assume a: "e = FinishJobSettled j" "promise w j = PendingFinishLog r"
        "\<not> timedOut (jobs w j)"
      have "tryToUnstallChannels w0 = Inr w0"
        unfolding tryToUnstallChannels_def by (rule unstallLoop_settled_noop) (rule st0)
      with a w0(1) show ?thesis
        by (simp add: finishSettled_def updJob_def setStatus_def nameOf_def fun_eq_iff)
    qed
  qed
  then obtain w' where w': "step w e = Inr w'" "channels w' = channels w0"
    "runningJobs w' = runningJobs w0" "nameOf w' = nameOf w0" by blast
  have re: "reachable w'" by (rule reachable_step[OF assms(1) en w'(1)])
  have s1: "runningJob ch \<noteq> None \<or>
      (\<forall>k\<in>set (queue ch). \<exists>b\<in>set (runningJobs w'). nameOf w b = nameOf w k)"
    if m: "map_of (channels w') cn = Some ch" for cn ch
  proof -
    from st0[of cn] m w'(2) have "runningJob ch \<noteq> None \<or>
        (\<forall>k\<in>set (queue ch). isRunning w0 (nameOf w0 k))" by (simp add: settled_def)
    then show ?thesis by (force simp: isRunning_iff n0 w'(3) image_iff)
  qed
  have s2: "\<exists>ch'. map_of (channels w') cn = Some ch' \<and>
       (x \<in> set (queue ch') \<or> runningJob ch' = Some x \<and> x \<in> set (runningJobs w'))"
    if "map_of (channels w) cn = Some ch \<and> x \<in> set (queue ch)" for cn ch x
    using unregisterJob_keeps[OF c t jr w0(1), of cn ch x] that by (simp add: w'(2,3))
  have s3: "if (\<exists>C\<in>set ks1. \<exists>chC k'. map_of (channels w') C = Some chC \<and>
                     runningJob chC = Some k' \<and> k' \<notin> set (runningJobs w) \<and>
                     nameOf w k' = nameOf w j)
               then k \<notin> set (runningJobs w') \<and>
                    (\<exists>chB. map_of (channels w') B = Some chB \<and> k \<in> set (queue chB))
               else k \<in> set (runningJobs w') \<and>
                    map_of (channels w') B =
                      Some (ch\<lparr> queue := qpre @ qpost, runningJob := Some k \<rparr>)"
    if h: "map fst (channels w) = ks1 @ B # ks2 \<and> map_of (channels w) B = Some ch \<and>
              runningJob ch = None \<and> queue ch = qpre @ k # qpost \<and>
              nameOf w k = nameOf w j \<and> (\<forall>x\<in>set qpre. isRunning w (nameOf w x))"
    for ks1 B ks2 ch qpre k qpost
  proof -
    from h have h1: "map fst (channels w) = ks1 @ B # ks2" "map_of (channels w) B = Some ch"
      "runningJob ch = None" "queue ch = qpre @ k # qpost" "nameOf w k = nameOf w j"
      "\<forall>x\<in>set qpre. isRunning w (nameOf w x)" by blast+
    have new: "k' \<notin> set (runningJobs w)"
      if m: "map_of (channels w') C = Some chC" "runningJob chC = Some k'"
        "nameOf w k' = nameOf w j" for C chC k'
    proof
      assume kr: "k' \<in> set (runningJobs w)"
      from c have "distinct (map (nameOf w) (runningJobs w))" by (simp add: core_def runInv_def)
      from distinct_map_eq[OF this kr jr m(3)] have "k' = j" .
      moreover from w0(2) m(1) have "chanOK w0 C chC"
        by (simp add: core_def chanInv_def w'(2))
      from chanOK_slotD(1)[OF this m(2)] have "k' \<in> set (runningJobs w0)" .
      ultimately show False using w0(4) by simp
    qed
    have "(\<exists>C\<in>set ks1. \<exists>chC k'. map_of (channels w') C = Some chC \<and>
             runningJob chC = Some k' \<and> k' \<notin> set (runningJobs w) \<and>
             nameOf w k' = nameOf w j) \<longleftrightarrow>
          (\<exists>C\<in>set ks1. \<exists>chC k'. map_of (channels w0) C = Some chC \<and>
             runningJob chC = Some k' \<and> nameOf w k' = nameOf w j)"
      using new unfolding w'(2) by blast
    with unregisterJob_order[OF c t jr w0(1) h1]
    show ?thesis by (simp only: w'(2,3))
  qed
  have nr: "j \<notin> set (runningJobs w')" using w0(4) w'(3) by simp
  have nn: "nameOf w' = nameOf w" using w'(4) n0 by simp
  show ?thesis
    apply (rule exI[of _ w'])
    apply (intro conjI allI impI)
          apply (rule w'(1))
         apply (rule re)
        apply (rule nr)
       apply (rule nn)
      apply (erule s1)
     apply (erule s2)
    apply (erule s3)
    done
qed

theorem global_unstall_witness:
  "(case run initial
      [RunTask ''V'' 0 100 \<lparr>optChannel = Some ''B'', optSilent = None\<rparr>,
       RunTask ''T'' 0 100 \<lparr>optChannel = Some ''B'', optSilent = None\<rparr>,
       RunTask ''T'' 0 100 \<lparr>optChannel = Some ''A'', optSilent = None\<rparr>,
       StartJobResolved 0 7 None, WorkSettled 0 None, Conclude 0, FinishJobSettled 0,
       StartJobResolved 2 8 None] of
      None \<Rightarrow> False
    | Some w \<Rightarrow> reachable w \<and> 2 \<in> set (timers w) \<and> runningJobs w = [2] \<and>
        map fst (channels w) = [''B'', ''A''] \<and> nameOf w 1 = nameOf w 2 \<and>
        map_of (channels w) ''B'' = Some \<lparr>name = ''B'', runningJob = None, queue = [1]\<rparr> \<and>
        (\<exists>w'. step w (TimerFires 2) = Inr w' \<and> reachable w' \<and> 2 \<notin> set (runningJobs w') \<and>
           1 \<in> set (runningJobs w') \<and>
           map_of (channels w') ''B'' = Some \<lparr>name = ''B'', runningJob = Some 1, queue = []\<rparr>))"
proof -
  let ?evs = "[RunTask ''V'' 0 100 \<lparr>optChannel = Some ''B'', optSilent = None\<rparr>,
       RunTask ''T'' 0 100 \<lparr>optChannel = Some ''B'', optSilent = None\<rparr>,
       RunTask ''T'' 0 100 \<lparr>optChannel = Some ''A'', optSilent = None\<rparr>,
       StartJobResolved 0 7 None, WorkSettled 0 None, Conclude 0, FinishJobSettled 0,
       StartJobResolved 2 8 None]"
  let ?ch = "\<lparr>name = ''B'', runningJob = None, queue = [1]\<rparr>"
  have "run initial ?evs \<noteq> None" by (simp add: model_defs)
  then obtain w where w: "run initial ?evs = Some w" by blast
  have re: "reachable w" by (rule run_reachable[OF reachable_initial w])
  have f: "2 \<in> set (timers w)" "runningJobs w = [2]" "map fst (channels w) = [''B'', ''A'']"
    "nameOf w 1 = nameOf w 2" "map_of (channels w) ''B'' = Some ?ch"
    using w by (auto simp: model_defs)
  have tr: "TimerFires 2 = TimerFires 2 \<and> 2 \<in> set (timers w) \<and> 2 \<in> set (runningJobs w) \<or>
      TimerFires 2 = FinishJobSettled 2 \<and> promise w 2 = PendingFinishLog Success \<and>
      \<not> timedOut (jobs w 2)"
    using f(1,2) by simp
  from global_unstall[OF re tr] obtain w' where
    w': "step w (TimerFires 2) = Inr w'" "reachable w'" "2 \<notin> set (runningJobs w')"
      "\<forall>ks1 B ks2 ch qpre k qpost.
          map fst (channels w) = ks1 @ B # ks2 \<and> map_of (channels w) B = Some ch \<and>
          runningJob ch = None \<and> queue ch = qpre @ k # qpost \<and>
          nameOf w k = nameOf w 2 \<and> (\<forall>x\<in>set qpre. isRunning w (nameOf w x)) \<longrightarrow>
          (if (\<exists>C\<in>set ks1. \<exists>chC k'. map_of (channels w') C = Some chC \<and>
                 runningJob chC = Some k' \<and> k' \<notin> set (runningJobs w) \<and>
                 nameOf w k' = nameOf w 2)
           then k \<notin> set (runningJobs w') \<and>
                (\<exists>chB. map_of (channels w') B = Some chB \<and> k \<in> set (queue chB))
           else k \<in> set (runningJobs w') \<and>
                map_of (channels w') B =
                  Some (ch\<lparr> queue := qpre @ qpost, runningJob := Some k \<rparr>))"
    by blast
  from w'(4)[rule_format, of "[]" "''B''" "[''A'']" ?ch "[]" 1 "[]"] f(3,4,5)
  have "1 \<in> set (runningJobs w')"
    "map_of (channels w') ''B'' = Some \<lparr>name = ''B'', runningJob = Some 1, queue = []\<rparr>"
    by simp_all
  with w re f w'(1-3) show ?thesis by simp
qed

end
